theory Spec2Isabelle
  imports Main
begin

section \<open>Schema strings and their versions\<close>

text \<open>
  Go strings are byte sequences; they are modelled as \<open>string\<close> (lists of \<open>char\<close>).
  The constant below is the literal of \<^verbatim>\<open>lazymigrate.go\<close>, line 14.
\<close>

definition Delimiter :: string where
  "Delimiter = ''--------------------------------- NEW VERSION ---------------------------------''"

text \<open>The struct \<^verbatim>\<open>Schema\<close> with its two unexported fields.\<close>

record Schema =
  schema :: string
  magic :: string

definition NewSchemaWithMagic :: "string \<Rightarrow> string \<Rightarrow> Schema" where
  "NewSchemaWithMagic sch mag = \<lparr>schema = sch, magic = mag\<rparr>"

definition NewSchema :: "string \<Rightarrow> Schema" where
  "NewSchema sch = NewSchemaWithMagic sch Delimiter"

subsection \<open>The functions of package \<^verbatim>\<open>strings\<close> that the code calls\<close>

text \<open>
  \<^verbatim>\<open>strings.HasPrefix(s, prefix)\<close> is
  \<^verbatim>\<open>len(s) >= len(prefix) && s[:len(prefix)] == prefix\<close>.
\<close>

definition HasPrefix :: "string \<Rightarrow> string \<Rightarrow> bool" where
  "HasPrefix s p \<longleftrightarrow> length p \<le> length s \<and> take (length p) s = p"

text \<open>
  \<^verbatim>\<open>strings.Index(s, substr)\<close> is the index of the first instance of \<open>substr\<close>
  in \<open>s\<close>; Go returns \<open>-1\<close> where the model returns \<open>None\<close>.
\<close>

fun Index :: "string \<Rightarrow> string \<Rightarrow> nat option" where
  "Index [] substr = (if substr = [] then Some 0 else None)"
| "Index (c # cs) substr =
     (if HasPrefix (c # cs) substr then Some 0 else map_option Suc (Index cs substr))"

definition Contains :: "string \<Rightarrow> string \<Rightarrow> bool" where
  "Contains s substr \<longleftrightarrow> Index s substr \<noteq> None"

text \<open>
  \<^verbatim>\<open>strings.Split(s, sep)\<close> is \<^verbatim>\<open>genSplit(s, sep, 0, -1)\<close>: it cuts \<open>s\<close> at the
  first instance of \<open>sep\<close>, keeps what precedes it, and goes on behind it, until no
  instance is left:
  \<^verbatim>\<open>
    for i < n {
        m := Index(s, sep)
        if m < 0 { break }
        a[i] = s[:m]
        s = s[m+len(sep):]
        i++
    }
    a[i] = s
  \<close>
  With an empty separator the library splits after each character instead
  (\<^verbatim>\<open>explode\<close>, written here for one-byte characters); \<open>Versions\<close> never passes an
  empty separator, since its separator holds two newlines.
\<close>

definition explode :: "string \<Rightarrow> string list" where
  "explode s = map (\<lambda>c. [c]) s"

function Split :: "string \<Rightarrow> string \<Rightarrow> string list" where
  "Split s sep =
     (if sep = [] then explode s
      else (case Index s sep of
              None \<Rightarrow> [s]
            | Some m \<Rightarrow> take m s # Split (drop (m + length sep) s) sep))"
  by pat_completeness auto
termination
proof (relation "measure (\<lambda>(s, sep). length s)")
  show "wf (measure (\<lambda>(s, sep). length s))" by simp
next
  fix s sep :: string and m :: nat
  assume "sep \<noteq> []" and "Index s sep = Some m"
  then have "s \<noteq> []" by (cases s) auto
  with \<open>sep \<noteq> []\<close> show "((drop (m + length sep) s, sep), (s, sep)) \<in> measure (\<lambda>(s, sep). length s)"
    by simp
qed

declare Split.simps [simp del]

text \<open>\<^verbatim>\<open>strings.Join(elems, sep)\<close>, the inverse operation that the claims refer to.\<close>

fun Join :: "string list \<Rightarrow> string \<Rightarrow> string" where
  "Join [] sep = []"
| "Join [x] sep = x"
| "Join (x # y # ys) sep = x @ sep @ Join (y # ys) sep"

subsection \<open>Versions\<close>

text \<open>The separator \<^verbatim>\<open>"\n"+s.magic+"\n"\<close> of line 43.\<close>

definition separator :: "string \<Rightarrow> string" where
  "separator mag = ''\<newline>'' @ mag @ ''\<newline>''"

definition Versions :: "Schema \<Rightarrow> string list" where
  "Versions s = Split (schema s) (separator (magic s))"

section \<open>The database as the code sees it\<close>

text \<open>
  \<open>Migrate\<close> talks to the database through \<^verbatim>\<open>database/sql\<close> only: \<^verbatim>\<open>db.Begin\<close>,
  \<^verbatim>\<open>tx.QueryRowContext(...).Scan\<close>, \<^verbatim>\<open>tx.ExecContext\<close>, \<^verbatim>\<open>tx.Commit\<close> and
  \<^verbatim>\<open>tx.Rollback\<close>. The engine behind that interface is a parameter: a type \<open>'s\<close> of
  database contents and four functions telling what each request does, and whether it
  fails. Any failure the driver can report (a locked file, a cancelled context, invalid
  SQL, no row to scan) is a \<open>dberr\<close> returned by one of them.

  Line 71 hands each version body to the driver as it is, and a body is any SQL text:
  it may hold several statements, and some of them may be \<^verbatim>\<open>COMMIT\<close>, \<^verbatim>\<open>ROLLBACK\<close> or
  \<^verbatim>\<open>BEGIN\<close>. So the engine executes a text on a session: the contents stored in the
  database, the contents as the connection sees them, and whether a transaction is open
  on the connection. A text may change all three, also when it returns an error (the
  statements before the failing one have run).
\<close>

datatype dberr = DriverError string | ErrTxDone

record 's session =
  durable :: 's
  view :: 's
  in_tx :: bool

record 's engine =
  eng_begin :: "'s \<Rightarrow> dberr option"
  eng_query :: "'s \<Rightarrow> string \<Rightarrow> dberr + int"
  eng_exec :: "'s session \<Rightarrow> string \<Rightarrow> dberr option \<times> 's session"
  eng_commit :: "'s session \<Rightarrow> dberr option"

text \<open>
  Every call that \<open>Migrate\<close> makes is written to a log, with the error it returned
  (\<open>None\<close> for \<^verbatim>\<open>nil\<close>). The two places that call \<^verbatim>\<open>ExecContext\<close> are told apart:
  \<open>Migration i\<close> is the loop body of line 71 at index \<open>i\<close>, \<open>UserVersion\<close> is line 77.
\<close>

datatype purpose = Migration int | UserVersion

datatype call =
    Begin
  | QueryRowContext string
  | ExecContext purpose string
  | Commit
  | Rollback

text \<open>
  A database handle holds the stored contents; a transaction handle holds the contents
  as the connection sees them (\<open>working\<close>), whether the transaction that \<^verbatim>\<open>Begin\<close>
  opened, or one that a version body opened in its place, is open on the connection
  (\<open>active\<close>), and the flag \<^verbatim>\<open>done\<close> of \<^verbatim>\<open>sql.Tx\<close> (\<open>finished\<close>), which only \<^verbatim>\<open>Commit\<close>
  and \<^verbatim>\<open>Rollback\<close> set: \<^verbatim>\<open>database/sql\<close> does not see what a body does to the
  transaction. \<^verbatim>\<open>ExecContext\<close> hands the session to the engine and takes over what
  the engine made of it. A commit that succeeds stores the view, a commit that fails
  stores nothing, and both finish the handle. \<^verbatim>\<open>Rollback\<close> drops the view and stores
  nothing, whether a transaction is still open or not; on a finished handle it does
  nothing and returns \<^verbatim>\<open>ErrTxDone\<close>, and so do the other methods. The error that a driver
  may return from a rollback is left out: the code drops it.
\<close>

record 's DB =
  stored :: 's
  calls :: "(call \<times> dberr option) list"

record 's Tx =
  working :: 's
  active :: bool
  finished :: bool

definition session_of :: "'s Tx \<times> 's DB \<Rightarrow> 's session" where
  "session_of st = (case st of (tx, db) \<Rightarrow>
     \<lparr>durable = stored db, view = working tx, in_tx = active tx\<rparr>)"

definition logged :: "call \<Rightarrow> dberr option \<Rightarrow> 's DB \<Rightarrow> 's DB" where
  "logged c r db = db\<lparr>calls := calls db @ [(c, r)]\<rparr>"

definition db_Begin :: "'s engine \<Rightarrow> 's DB \<Rightarrow> (dberr + 's Tx) \<times> 's DB" where
  "db_Begin eng db =
     (case eng_begin eng (stored db) of
        Some e \<Rightarrow> (Inl e, logged Begin (Some e) db)
      | None \<Rightarrow>
          (Inr \<lparr>working = stored db, active = True, finished = False\<rparr>, logged Begin None db))"

definition tx_QueryRowContext ::
  "'s engine \<Rightarrow> string \<Rightarrow> 's Tx \<times> 's DB \<Rightarrow> (dberr + int) \<times> 's Tx \<times> 's DB" where
  "tx_QueryRowContext eng sql st =
     (case st of (tx, db) \<Rightarrow>
        if finished tx then (Inl ErrTxDone, tx, logged (QueryRowContext sql) (Some ErrTxDone) db)
        else (case eng_query eng (working tx) sql of
                Inl e \<Rightarrow> (Inl e, tx, logged (QueryRowContext sql) (Some e) db)
              | Inr v \<Rightarrow> (Inr v, tx, logged (QueryRowContext sql) None db)))"

definition tx_ExecContext ::
  "'s engine \<Rightarrow> purpose \<Rightarrow> string \<Rightarrow> 's Tx \<times> 's DB \<Rightarrow> dberr option \<times> 's Tx \<times> 's DB" where
  "tx_ExecContext eng p sql st =
     (case st of (tx, db) \<Rightarrow>
        if finished tx then (Some ErrTxDone, tx, logged (ExecContext p sql) (Some ErrTxDone) db)
        else (case eng_exec eng (session_of (tx, db)) sql of
                (r, c) \<Rightarrow>
                  (r, tx\<lparr>working := view c, active := in_tx c\<rparr>,
                   logged (ExecContext p sql) r (db\<lparr>stored := durable c\<rparr>))))"

definition tx_Commit :: "'s engine \<Rightarrow> 's Tx \<times> 's DB \<Rightarrow> dberr option \<times> 's Tx \<times> 's DB" where
  "tx_Commit eng st =
     (case st of (tx, db) \<Rightarrow>
        if finished tx then (Some ErrTxDone, tx, logged Commit (Some ErrTxDone) db)
        else (case eng_commit eng (session_of (tx, db)) of
                Some e \<Rightarrow> (Some e, tx\<lparr>finished := True\<rparr>, logged Commit (Some e) db)
              | None \<Rightarrow>
                  (None, tx\<lparr>finished := True\<rparr>, logged Commit None (db\<lparr>stored := working tx\<rparr>))))"

definition tx_Rollback :: "'s Tx \<times> 's DB \<Rightarrow> dberr option \<times> 's Tx \<times> 's DB" where
  "tx_Rollback st =
     (case st of (tx, db) \<Rightarrow>
        if finished tx then (Some ErrTxDone, tx, logged Rollback (Some ErrTxDone) db)
        else (None, tx\<lparr>finished := True\<rparr>, logged Rollback None db))"

section \<open>Migrate\<close>

text \<open>
  \<^verbatim>\<open>fmt.Sprintln("PRAGMA user_version =", len(versions))\<close>: the operands in their
  default format, a space between them, a newline at the end. An \<^verbatim>\<open>int\<close> prints in
  decimal, with a minus sign when negative.
\<close>

fun decimal :: "nat \<Rightarrow> string" where
  "decimal n =
     (if n < 10 then [''0123456789'' ! n]
      else decimal (n div 10) @ [''0123456789'' ! (n mod 10)])"

declare decimal.simps [simp del]

definition Itoa :: "int \<Rightarrow> string" where
  "Itoa i = (if i < 0 then ''-'' @ decimal (nat (- i)) else decimal (nat i))"

definition Sprintln_user_version :: "int \<Rightarrow> string" where
  "Sprintln_user_version n = ''PRAGMA user_version ='' @ '' '' @ Itoa n @ ''\<newline>''"

text \<open>
  The errors that \<open>Migrate\<close> builds with \<^verbatim>\<open>fmt.Errorf\<close>, one constructor for each
  format string, with the wrapped error (\<^verbatim>\<open>%w\<close>) and the index (\<^verbatim>\<open>%d\<close>) as arguments.
  \<open>Success\<close> is the return value \<^verbatim>\<open>nil\<close>. Indexing a slice out of range is a run-time
  panic, which is not an error value.
\<close>

datatype migrate_error =
    CannotBeginTransaction dberr
  | CannotGetUserVersion dberr
  | CannotApplyMigration int dberr
  | CannotSetUserVersion dberr
  | CannotCommit dberr

datatype result = Success | Error migrate_error | PanicIndexOutOfRange int

text \<open>
  The loop of lines 70 to 75. The variable \<open>i\<close> is a Go \<^verbatim>\<open>int\<close>: it starts at the
  value scanned from the database, which may be negative, and \<^verbatim>\<open>versions[i]\<close> panics
  then. It is incremented only while it is below \<^verbatim>\<open>len(versions)\<close>, so it never wraps
  around, and an unbounded \<open>int\<close> models it. The loop returns \<open>None\<close> when it runs to its
  end.
\<close>

function apply_versions ::
  "'s engine \<Rightarrow> string list \<Rightarrow> int \<Rightarrow> 's Tx \<times> 's DB \<Rightarrow> result option \<times> 's Tx \<times> 's DB" where
  "apply_versions eng versions i st =
     (if i < int (length versions) then
        (if i < 0 then (Some (PanicIndexOutOfRange i), st)
         else (case tx_ExecContext eng (Migration i) (versions ! nat i) st of
                 (Some e, st') \<Rightarrow> (Some (Error (CannotApplyMigration i e)), st')
               | (None, st') \<Rightarrow> apply_versions eng versions (i + 1) st'))
      else (None, st))"
  by pat_completeness auto
termination
  by (relation "measure (\<lambda>(eng, versions, i, st). nat (int (length versions) - i))") auto

declare apply_versions.simps [simp del]

text \<open>Lines 60 to 85: what runs between the \<^verbatim>\<open>defer\<close> and the return.\<close>

definition migrate_body :: "'s engine \<Rightarrow> Schema \<Rightarrow> 's Tx \<times> 's DB \<Rightarrow> result \<times> 's Tx \<times> 's DB" where
  "migrate_body eng s st =
     (case tx_QueryRowContext eng ''PRAGMA user_version'' st of
        (Inl e, st1) \<Rightarrow> (Error (CannotGetUserVersion e), st1)
      | (Inr v, st1) \<Rightarrow>
          (let versions = Versions s in
           if v \<ge> int (length versions) then (Success, st1)
           else (case apply_versions eng versions v st1 of
                   (Some r, st2) \<Rightarrow> (r, st2)
                 | (None, st2) \<Rightarrow>
                     (case tx_ExecContext eng UserVersion
                             (Sprintln_user_version (int (length versions))) st2 of
                        (Some e, st3) \<Rightarrow> (Error (CannotSetUserVersion e), st3)
                      | (None, st3) \<Rightarrow>
                          (case tx_Commit eng st3 of
                             (Some e, st4) \<Rightarrow> (Error (CannotCommit e), st4)
                           | (None, st4) \<Rightarrow> (Success, st4))))))"

text \<open>
  \<^verbatim>\<open>(*Schema).Migrate\<close>. When \<^verbatim>\<open>Begin\<close> fails the function returns before the
  \<^verbatim>\<open>defer\<close> of line 58; otherwise the deferred \<^verbatim>\<open>tx.Rollback()\<close> runs on every way
  out of the body, a panic included, and its result is dropped. The transaction handle
  is returned with the result, so that its final state can be stated.
\<close>

definition Schema_Migrate ::
  "'s engine \<Rightarrow> Schema \<Rightarrow> 's DB \<Rightarrow> result \<times> 's Tx option \<times> 's DB" where
  "Schema_Migrate eng s db =
     (case db_Begin eng db of
        (Inl e, db1) \<Rightarrow> (Error (CannotBeginTransaction e), None, db1)
      | (Inr tx, db1) \<Rightarrow>
          (case migrate_body eng s (tx, db1) of
             (r, st) \<Rightarrow>
               (case tx_Rollback st of
                  (_, tx', db') \<Rightarrow> (r, Some tx', db'))))"

text \<open>The package-level \<^verbatim>\<open>Migrate\<close> of line 90.\<close>

definition Migrate :: "'s engine \<Rightarrow> 's DB \<Rightarrow> string \<Rightarrow> result \<times> 's Tx option \<times> 's DB" where
  "Migrate eng db sch = Schema_Migrate eng (NewSchema sch) db"

section \<open>Notions used to state the properties\<close>


text \<open>The applied-version counter of database contents: what the pragma reads.\<close>

definition counter :: "'s engine \<Rightarrow> 's \<Rightarrow> dberr + int" where
  "counter eng w = eng_query eng w ''PRAGMA user_version''"

text \<open>
  What the code relies on for the counter (the scalar register of the database
  collaborator): once the statement that sets \<open>user_version\<close> to \<open>n\<close> has succeeded,
  reading the pragma gives \<open>n\<close>.
\<close>

definition user_version_register :: "'s engine \<Rightarrow> bool" where
  "user_version_register eng \<longleftrightarrow>
     (\<forall>c c' n. eng_exec eng c (Sprintln_user_version (int n)) = (None, c') \<longrightarrow>
        counter eng (view c') = Inr (int n))"

text \<open>
  The session in which \<open>Migrate\<close> starts to execute statements on a database: the
  transaction that \<^verbatim>\<open>Begin\<close> opened sees the stored contents.
\<close>

definition opened :: "'s DB \<Rightarrow> 's session" where
  "opened db = \<lparr>durable = stored db, view = stored db, in_tx = True\<rparr>"

text \<open>
  A text leaves the transaction alone when, executed in an open transaction, it neither
  writes the stored contents nor closes the transaction, whether it succeeds or fails:
  it holds no \<^verbatim>\<open>COMMIT\<close> and no \<^verbatim>\<open>ROLLBACK\<close> of its own.
\<close>

definition keeps_transaction :: "'s engine \<Rightarrow> string \<Rightarrow> bool" where
  "keeps_transaction eng q \<longleftrightarrow>
     (\<forall>c. in_tx c \<longrightarrow>
        in_tx (snd (eng_exec eng c q)) \<and> durable (snd (eng_exec eng c q)) = durable c)"

text \<open>The calls logged between two states of the database handle.\<close>

definition trace :: "'s DB \<Rightarrow> 's DB \<Rightarrow> (call \<times> dberr option) list" where
  "trace db db' = drop (length (calls db)) (calls db')"

text \<open>The log entries of the version bodies \<open>a\<close> to \<open>b - 1\<close>, each executed without error.\<close>

definition applied_ok :: "string list \<Rightarrow> nat \<Rightarrow> nat \<Rightarrow> (call \<times> dberr option) list" where
  "applied_ok vs a b = map (\<lambda>j. (ExecContext (Migration (int j)) (vs ! j), None)) [a..<b]"

text \<open>The executions of version bodies in a log: index, SQL text and returned error.\<close>

fun migrations_of :: "(call \<times> dberr option) list \<Rightarrow> (int \<times> string \<times> dberr option) list" where
  "migrations_of [] = []"
| "migrations_of ((ExecContext (Migration i) q, r) # es) = (i, q, r) # migrations_of es"
| "migrations_of (e # es) = migrations_of es"

fun is_read :: "call \<times> dberr option \<Rightarrow> bool" where
  "is_read (QueryRowContext q, r) = True"
| "is_read e = False"

fun is_write :: "call \<times> dberr option \<Rightarrow> bool" where
  "is_write (ExecContext UserVersion q, r) = True"
| "is_write e = False"

text \<open>Texts executed one after the other on a session, up to the first error.\<close>

fun run_statements :: "'s engine \<Rightarrow> 's session \<Rightarrow> string list \<Rightarrow> dberr option \<times> 's session" where
  "run_statements eng c [] = (None, c)"
| "run_statements eng c (q # qs) =
     (case eng_exec eng c q of
        (Some e, c') \<Rightarrow> (Some e, c')
      | (None, c') \<Rightarrow> run_statements eng c' qs)"

section \<open>A small database engine for concrete runs\<close>

text \<open>
  An engine to run \<open>Migrate\<close> on concrete inputs. Its contents are the value of
  \<open>user_version\<close>, the statements applied so far, and a flag saying that the file is
  locked (no transaction can begin). It cuts a text into statements at the semicolons
  and runs them in order up to the first error. \<^verbatim>\<open>COMMIT\<close> stores the view and closes
  the transaction, \<^verbatim>\<open>ROLLBACK\<close> goes back to the stored contents and closes it,
  \<^verbatim>\<open>BEGIN\<close> opens one; each fails when the transaction is not in the state it needs.
  The engine rejects the statements listed in \<open>bad\<close>, obeys
  \<^verbatim>\<open>PRAGMA user_version = N\<close> for a decimal \<open>N\<close>, and appends any other statement to
  the applied ones. Outside a transaction a statement is stored at once.
\<close>

record sim =
  sim_user_version :: int
  sim_applied :: "string list"
  sim_locked :: bool

definition digit_value :: "char \<Rightarrow> nat option" where
  "digit_value c =
     map_of [(CHR ''0'', 0), (CHR ''1'', 1), (CHR ''2'', 2), (CHR ''3'', 3), (CHR ''4'', 4),
             (CHR ''5'', 5), (CHR ''6'', 6), (CHR ''7'', 7), (CHR ''8'', 8), (CHR ''9'', 9)] c"

fun parse_decimal :: "string \<Rightarrow> nat \<Rightarrow> nat option" where
  "parse_decimal [] acc = Some acc"
| "parse_decimal (c # cs) acc =
     (case digit_value c of None \<Rightarrow> None | Some d \<Rightarrow> parse_decimal cs (10 * acc + d))"

definition is_space :: "char \<Rightarrow> bool" where
  "is_space c \<longleftrightarrow> c = CHR '' '' \<or> c = CHR ''\<newline>''"

definition trim :: "string \<Rightarrow> string" where
  "trim s = rev (dropWhile is_space (rev (dropWhile is_space s)))"

definition statements :: "string \<Rightarrow> string list" where
  "statements body = filter (\<lambda>q. q \<noteq> []) (map trim (Split body '';''))"

definition sim_pragma :: "string \<Rightarrow> nat option" where
  "sim_pragma q =
     (if HasPrefix q ''PRAGMA user_version = '' \<and> drop 22 q \<noteq> []
      then parse_decimal (drop 22 q) 0 else None)"

definition sim_write :: "sim \<Rightarrow> string \<Rightarrow> sim" where
  "sim_write w q =
     (case sim_pragma q of
        Some n \<Rightarrow> w\<lparr>sim_user_version := int n\<rparr>
      | None \<Rightarrow> w\<lparr>sim_applied := sim_applied w @ [q]\<rparr>)"

definition sim_statement :: "string list \<Rightarrow> sim session \<Rightarrow> string \<Rightarrow> dberr option \<times> sim session" where
  "sim_statement bad c q =
     (if q = ''COMMIT'' then
        (if in_tx c then (None, c\<lparr>durable := view c, in_tx := False\<rparr>)
         else (Some (DriverError ''cannot commit - no transaction is active''), c))
      else if q = ''ROLLBACK'' then
        (if in_tx c then (None, c\<lparr>view := durable c, in_tx := False\<rparr>)
         else (Some (DriverError ''cannot rollback - no transaction is active''), c))
      else if q = ''BEGIN'' then
        (if in_tx c then (Some (DriverError ''cannot start a transaction within a transaction''), c)
         else (None, c\<lparr>in_tx := True\<rparr>))
      else if q \<in> set bad then (Some (DriverError ''syntax error''), c)
      else if in_tx c then (None, c\<lparr>view := sim_write (view c) q\<rparr>)
      else (None, c\<lparr>durable := sim_write (view c) q, view := sim_write (view c) q\<rparr>))"

fun sim_run :: "string list \<Rightarrow> sim session \<Rightarrow> string list \<Rightarrow> dberr option \<times> sim session" where
  "sim_run bad c [] = (None, c)"
| "sim_run bad c (q # qs) =
     (case sim_statement bad c q of
        (Some e, c') \<Rightarrow> (Some e, c')
      | (None, c') \<Rightarrow> sim_run bad c' qs)"

definition sim_exec :: "string list \<Rightarrow> sim session \<Rightarrow> string \<Rightarrow> dberr option \<times> sim session" where
  "sim_exec bad c body = sim_run bad c (statements body)"

definition sim_engine :: "string list \<Rightarrow> sim engine" where
  "sim_engine bad =
     \<lparr>eng_begin = (\<lambda>w. if sim_locked w then Some (DriverError ''database is locked'') else None),
      eng_query = (\<lambda>w sql. if sql = ''PRAGMA user_version'' then Inr (sim_user_version w)
                            else Inl (DriverError ''no rows'')),
      eng_exec = sim_exec bad,
      eng_commit = (\<lambda>c. if in_tx c then None
                         else Some (DriverError ''cannot commit - no transaction is active''))\<rparr>"

definition sim_db :: "int \<Rightarrow> sim DB" where
  "sim_db v = \<lparr>stored = \<lparr>sim_user_version = v, sim_applied = [], sim_locked = False\<rparr>, calls = []\<rparr>"

text \<open>
  Schema sources with the default delimiter: the two versions of the concrete scenario
  of the specification; a source whose second version is a statement that the engine
  is told to reject; the same with a first version that commits and opens a transaction
  again; and five versions of which the fourth sets \<open>user_version\<close> to 1, commits and
  opens a transaction again, and the fifth is rejected.
\<close>

definition example_schema :: Schema where
  "example_schema =
     NewSchema (''CREATE TABLE t(x INT);'' @ separator Delimiter @ ''ALTER TABLE t ADD COLUMN y INT;'')"

definition broken_schema :: Schema where
  "broken_schema = NewSchema (''CREATE TABLE t(x INT);'' @ separator Delimiter @ ''INVALID'')"

definition committing_schema :: Schema where
  "committing_schema =
     NewSchema (''CREATE TABLE t(x INT); COMMIT; BEGIN;'' @ separator Delimiter @ ''INVALID'')"

definition lowering_schema :: Schema where
  "lowering_schema =
     NewSchema (''CREATE TABLE a(x INT);'' @ separator Delimiter @ ''CREATE TABLE b(x INT);''
       @ separator Delimiter @ ''CREATE TABLE c(x INT);''
       @ separator Delimiter @ ''PRAGMA user_version = 1; COMMIT; BEGIN;''
       @ separator Delimiter @ ''INVALID'')"

section \<open>Facts about the string functions\<close>


lemma HasPrefix_append: "length p \<le> length a \<Longrightarrow> HasPrefix (a @ b) p \<longleftrightarrow> HasPrefix a p"
  by (simp add: HasPrefix_def)



lemma Index_None_D: "Index s sep = None \<Longrightarrow> k \<le> length s \<Longrightarrow> \<not> HasPrefix (drop k s) sep"
proof (induction s arbitrary: k)
  case Nil
  then show ?case by (simp add: HasPrefix_def split: if_splits)
next
  case (Cons c cs)
  then show ?case by (cases k) (auto split: if_splits)
qed


lemma Index_at_join:
  "sep \<noteq> [] \<Longrightarrow> \<not> Contains (x @ butlast sep) sep \<Longrightarrow> Index (x @ sep @ rest) sep = Some (length x)"
proof (induction x)
  case Nil
  then show ?case by (cases sep) (auto simp: HasPrefix_def)
next
  case (Cons c x)
  from Cons.prems(2) have none: "Index (c # x @ butlast sep) sep = None"
    by (simp add: Contains_def)
  then have np: "\<not> HasPrefix (c # x @ butlast sep) sep" and tl: "Index (x @ butlast sep) sep = None"
    by (auto split: if_splits)
  have "c # x @ sep @ rest = (c # x @ butlast sep) @ ([last sep] @ rest)"
    using Cons.prems(1) by simp
  moreover have "length sep \<le> length (c # x @ butlast sep)" by simp
  ultimately have "\<not> HasPrefix (c # x @ sep @ rest) sep"
    using np HasPrefix_append by metis
  moreover have "Index (x @ sep @ rest) sep = Some (length x)"
    using Cons.IH Cons.prems(1) tl by (simp add: Contains_def)
  ultimately show ?case by simp
qed

lemma Split_None: "sep \<noteq> [] \<Longrightarrow> Index s sep = None \<Longrightarrow> Split s sep = [s]"
  by (simp add: Split.simps)

lemma Split_Some:
  "sep \<noteq> [] \<Longrightarrow> Index s sep = Some m \<Longrightarrow>
   Split s sep = take m s # Split (drop (m + length sep) s) sep"
  by (subst Split.simps) simp

lemma Split_not_Nil: "sep \<noteq> [] \<Longrightarrow> Split s sep \<noteq> []"
  by (subst Split.simps) (simp split: option.splits)





lemma Split_Join:
  "sep \<noteq> [] \<Longrightarrow> segs \<noteq> [] \<Longrightarrow>
   \<forall>x\<in>set (butlast segs). \<not> Contains (x @ butlast sep) sep \<Longrightarrow>
   \<not> Contains (last segs) sep \<Longrightarrow> Split (Join segs sep) sep = segs"
proof (induction segs sep rule: Join.induct)
  case (1 sep)
  then show ?case by simp
next
  case (2 x sep)
  then show ?case by (simp add: Split_None Contains_def)
next
  case (3 x y ys sep)
  from "3.prems" have "Index (x @ sep @ Join (y # ys) sep) sep = Some (length x)"
    by (simp add: Index_at_join)
  with "3.prems" "3.IH" show ?case by (simp add: Split_Some)
qed

lemma separator_not_Nil: "separator d \<noteq> []"
  by (simp add: separator_def)

lemma Index_absent: "c \<notin> set s \<Longrightarrow> Index s [c] = None"
  by (induction s) (auto simp: HasPrefix_def)

section \<open>Facts about the engine for concrete runs\<close>

lemma parse_decimal_append:
  "parse_decimal (xs @ ys) acc =
     (case parse_decimal xs acc of None \<Rightarrow> None | Some a \<Rightarrow> parse_decimal ys a)"
  by (induction xs arbitrary: acc) (auto split: option.splits)

lemma digit_value_nth: "k < 10 \<Longrightarrow> digit_value (''0123456789'' ! k) = Some k"
proof -
  assume "k < 10"
  then have "k \<in> {0, 1, 2, 3, 4, 5, 6, 7, 8, 9}" by auto
  then show ?thesis by (auto simp: digit_value_def)
qed

lemma parse_decimal_decimal: "parse_decimal (decimal n) 0 = Some n"
proof (induction n rule: decimal.induct)
  case (1 n)
  show ?case
  proof (cases "n < 10")
    case True
    then show ?thesis by (subst decimal.simps) (simp add: digit_value_nth)
  next
    case False
    with "1.IH" have "parse_decimal (decimal (n div 10)) 0 = Some (n div 10)" by simp
    with False show ?thesis
      by (subst decimal.simps) (simp add: parse_decimal_append digit_value_nth)
  qed
qed

lemma decimal_not_Nil: "decimal n \<noteq> []"
  by (subst decimal.simps) simp

lemma set_decimal: "set (decimal n) \<subseteq> set ''0123456789''"
proof (induction n rule: decimal.induct)
  case (1 n)
  have digit: "''0123456789'' ! k \<in> set ''0123456789''" if "k < 10" for k
    using that nth_mem [of k "''0123456789''"] by simp
  show ?case
  proof (cases "n < 10")
    case True
    with digit [of n] show ?thesis by (subst decimal.simps) simp
  next
    case False
    with "1.IH" digit [of "n mod 10"] show ?thesis by (subst decimal.simps) simp
  qed
qed

lemma decimal_snoc: "\<exists>ds d. decimal n = ds @ [d] \<and> d \<in> set ''0123456789''"
proof -
  have "decimal n \<noteq> []" by (rule decimal_not_Nil)
  then have "decimal n = butlast (decimal n) @ [last (decimal n)]" by simp
  moreover have "last (decimal n) \<in> set ''0123456789''"
    using set_decimal [of n] last_in_set [OF \<open>decimal n \<noteq> []\<close>] by blast
  ultimately show ?thesis by blast
qed

lemma statements_Sprintln:
  "statements (Sprintln_user_version (int n)) = [''PRAGMA user_version = '' @ decimal n]"
proof -
  define P where "P = ''PRAGMA user_version = '' @ decimal n @ ''\<newline>''"
  have eq: "Sprintln_user_version (int n) = P"
    by (simp add: Sprintln_user_version_def Itoa_def P_def)
  have "CHR '';'' \<notin> set P" unfolding P_def using set_decimal [of n] by auto
  then have "Index P '';'' = None" by (rule Index_absent)
  then have split: "Split P '';'' = [P]" by (simp add: Split_None)
  obtain ds d where d: "decimal n = ds @ [d]" "d \<in> set ''0123456789''"
    using decimal_snoc by blast
  then have "\<not> is_space d" by (auto simp: is_space_def)
  then have "trim P = ''PRAGMA user_version = '' @ decimal n"
    by (simp add: P_def trim_def is_space_def d(1))
  with split show ?thesis unfolding eq by (simp add: statements_def)
qed

lemma sim_pragma_decimal: "sim_pragma (''PRAGMA user_version = '' @ decimal n) = Some n"
  using decimal_not_Nil [of n]
  by (simp add: sim_pragma_def HasPrefix_def parse_decimal_decimal)

lemma sim_register: "user_version_register (sim_engine bad)"
proof -
  have "counter (sim_engine bad) (view c') = Inr (int n)"
    if run: "sim_exec bad c (Sprintln_user_version (int n)) = (None, c')" for c c' n
  proof -
    define q where "q = ''PRAGMA user_version = '' @ decimal n"
    have q: "statements (Sprintln_user_version (int n)) = [q]" "sim_pragma q = Some n"
      unfolding q_def by (rule statements_Sprintln, rule sim_pragma_decimal)
    have q': "q \<noteq> ''COMMIT''" "q \<noteq> ''ROLLBACK''" "q \<noteq> ''BEGIN''"
      by (simp_all add: q_def)
    from run have "sim_user_version (view c') = int n"
      by (auto simp: sim_exec_def q q' sim_statement_def sim_write_def
          split: if_splits prod.splits option.splits)
    then show ?thesis by (simp add: counter_def sim_engine_def)
  qed
  then show ?thesis by (simp add: user_version_register_def sim_engine_def)
qed

lemma sim_db_ready:
  "eng_begin (sim_engine bad) (stored (sim_db v)) = None"
  "counter (sim_engine bad) (stored (sim_db v)) = Inr v"
  by (simp_all add: counter_def sim_engine_def sim_db_def)

text \<open>
  A text without \<^verbatim>\<open>COMMIT\<close> and \<^verbatim>\<open>ROLLBACK\<close> leaves the transaction of the engine alone.
\<close>

lemma sim_run_keeps:
  "''COMMIT'' \<notin> set qs \<Longrightarrow> ''ROLLBACK'' \<notin> set qs \<Longrightarrow> in_tx c \<Longrightarrow>
   in_tx (snd (sim_run bad c qs)) \<and> durable (snd (sim_run bad c qs)) = durable c"
proof (induction qs arbitrary: c)
  case Nil
  then show ?case by simp
next
  case (Cons q qs)
  then have q: "q \<noteq> ''COMMIT''" "q \<noteq> ''ROLLBACK''" by auto
  obtain r c1 where st: "sim_statement bad c q = (r, c1)" by (cases "sim_statement bad c q") auto
  with q Cons.prems(3) have k: "in_tx c1 \<and> durable c1 = durable c"
    by (auto simp: sim_statement_def split: if_splits)
  show ?case
  proof (cases r)
    case (Some e)
    with st k show ?thesis by simp
  next
    case None
    with st k Cons.IH [of c1] Cons.prems(1,2) show ?thesis by simp
  qed
qed

lemma sim_keeps:
  "''COMMIT'' \<notin> set (statements q) \<Longrightarrow> ''ROLLBACK'' \<notin> set (statements q) \<Longrightarrow>
   keeps_transaction (sim_engine bad) q"
  by (simp add: keeps_transaction_def sim_engine_def sim_exec_def sim_run_keeps)

lemma sim_keeps_write: "keeps_transaction (sim_engine bad) (Sprintln_user_version (int n))"
  by (rule sim_keeps) (simp_all add: statements_Sprintln)

text \<open>The equations that evaluate a concrete run.\<close>

lemmas run_defs =
  Schema_Migrate_def db_Begin_def migrate_body_def tx_QueryRowContext_def tx_ExecContext_def
  tx_Commit_def tx_Rollback_def logged_def apply_versions.simps Versions_def NewSchema_def
  NewSchemaWithMagic_def separator_def Delimiter_def Split.simps HasPrefix_def Let_def
  session_of_def sim_engine_def sim_db_def sim_exec_def statements_def trim_def is_space_def
  sim_statement_def sim_write_def sim_pragma_def counter_def Sprintln_user_version_def
  Itoa_def decimal.simps digit_value_def trace_def

lemma triple_eq: "fst R = a \<Longrightarrow> R = (a, fst (snd R), snd (snd R))"
  by (cases R) auto

lemma Versions_example:
  "Versions example_schema = [''CREATE TABLE t(x INT);'', ''ALTER TABLE t ADD COLUMN y INT;'']"
  by (simp add: example_schema_def run_defs)

lemma Versions_broken: "Versions broken_schema = [''CREATE TABLE t(x INT);'', ''INVALID'']"
  by (simp add: broken_schema_def run_defs)

lemma broken_keeps:
  "\<forall>v. counter (sim_engine bad) (stored (sim_db 0)) = Inr v \<longrightarrow>
     (\<forall>q\<in>set (drop (nat v) (Versions broken_schema)). keeps_transaction (sim_engine bad) q)"
proof -
  have "keeps_transaction (sim_engine bad) q" if "q \<in> set (Versions broken_schema)" for q
    using that unfolding Versions_broken
    by (auto intro!: sim_keeps simp: statements_def Split.simps HasPrefix_def trim_def is_space_def)
  then show ?thesis by (meson in_set_dropD)
qed

section \<open>Facts about Migrate\<close>

lemma logged_simps [simp]:
  "stored (logged c r db) = stored db"
  "calls (logged c r db) = calls db @ [(c, r)]"
  by (simp_all add: logged_def)

lemma session_of_simps [simp]:
  "durable (session_of (tx, db)) = stored db"
  "view (session_of (tx, db)) = working tx"
  "in_tx (session_of (tx, db)) = active tx"
  by (simp_all add: session_of_def)

lemma session_of_logged [simp]: "session_of (tx, logged c r db) = session_of (tx, db)"
  by (simp add: session_of_def)

lemma session_of_taken [simp]:
  "session_of (tx\<lparr>working := view c, active := in_tx c\<rparr>, db\<lparr>stored := durable c\<rparr>) = c"
  by (cases c) (simp add: session_of_def)

lemma session_eta [simp]: "\<lparr>durable = durable c, view = view c, in_tx = in_tx c\<rparr> = c"
  by (cases c) simp

lemma opened_simps [simp]:
  "in_tx (opened db)" "durable (opened db) = stored db" "view (opened db) = stored db"
  by (simp_all add: opened_def)

lemma tx_ExecContext_open:
  "\<not> finished tx \<Longrightarrow> eng_exec eng (session_of (tx, db)) q = (r, c) \<Longrightarrow>
   tx_ExecContext eng p q (tx, db)
     = (r, tx\<lparr>working := view c, active := in_tx c\<rparr>,
        logged (ExecContext p q) r (db\<lparr>stored := durable c\<rparr>))"
  by (simp add: tx_ExecContext_def)

lemma apply_versions_done:
  "int (length vs) \<le> i \<Longrightarrow> apply_versions eng vs i st = (None, st)"
  by (subst apply_versions.simps) simp

lemma apply_versions_panic:
  "i < 0 \<Longrightarrow> apply_versions eng vs i st = (Some (PanicIndexOutOfRange i), st)"
  by (subst apply_versions.simps) simp

lemma apply_versions_err:
  "0 \<le> i \<Longrightarrow> i < int (length vs) \<Longrightarrow>
   tx_ExecContext eng (Migration i) (vs ! nat i) st = (Some e, st') \<Longrightarrow>
   apply_versions eng vs i st = (Some (Error (CannotApplyMigration i e)), st')"
  by (subst apply_versions.simps) simp

lemma apply_versions_ok:
  "0 \<le> i \<Longrightarrow> i < int (length vs) \<Longrightarrow>
   tx_ExecContext eng (Migration i) (vs ! nat i) st = (None, st') \<Longrightarrow>
   apply_versions eng vs i st = apply_versions eng vs (i + 1) st'"
  by (subst apply_versions.simps) simp

lemma applied_ok_empty [simp]: "b \<le> a \<Longrightarrow> applied_ok vs a b = []"
  by (simp add: applied_ok_def)

lemma applied_ok_Cons:
  "a < b \<Longrightarrow> applied_ok vs a b = (ExecContext (Migration (int a)) (vs ! a), None) # applied_ok vs (Suc a) b"
  by (simp add: applied_ok_def upt_conv_Cons)

text \<open>
  The loop, started at a counter that is not negative, with the transaction handle not
  finished: it runs the bodies on the session in order, and either reaches the end or
  stops at the first body that fails.
\<close>

lemma apply_versions_run:
  assumes "0 \<le> i" and "\<not> finished tx"
  shows "\<exists>r tx' db'. apply_versions eng vs i (tx, db) = (r, tx', db') \<and> \<not> finished tx' \<and>
     ((r = None \<and>
       run_statements eng (session_of (tx, db)) (drop (nat i) vs) = (None, session_of (tx', db')) \<and>
       calls db' = calls db @ applied_ok vs (nat i) (length vs)) \<or>
      (\<exists>k e. i \<le> k \<and> k < int (length vs) \<and> r = Some (Error (CannotApplyMigration k e)) \<and>
         run_statements eng (session_of (tx, db)) (drop (nat i) vs) = (Some e, session_of (tx', db')) \<and>
         calls db' = calls db @ applied_ok vs (nat i) (nat k)
            @ [(ExecContext (Migration k) (vs ! nat k), Some e)]))"
  using assms
proof (induction "length vs - nat i" arbitrary: i tx db)
  case 0
  then have "int (length vs) \<le> i" by simp
  with 0 show ?case by (simp add: apply_versions_done)
next
  case (Suc d)
  then have lt: "i < int (length vs)" and i0: "0 \<le> i" by simp_all
  let ?q = "vs ! nat i"
  let ?c = "ExecContext (Migration i) ?q"
  have suc: "nat (i + 1) = Suc (nat i)" using i0 by simp
  have nlt: "nat i < length vs" using lt i0 by simp
  have drop: "drop (nat i) vs = ?q # drop (nat (i + 1)) vs"
    using nlt by (simp add: suc Cons_nth_drop_Suc)
  obtain r0 c where ex: "eng_exec eng (session_of (tx, db)) ?q = (r0, c)"
    by (cases "eng_exec eng (session_of (tx, db)) ?q") auto
  let ?tx = "tx\<lparr>working := view c, active := in_tx c\<rparr>"
  let ?db = "logged ?c r0 (db\<lparr>stored := durable c\<rparr>)"
  have step: "tx_ExecContext eng (Migration i) ?q (tx, db) = (r0, ?tx, ?db)"
    using Suc.prems ex by (simp add: tx_ExecContext_open)
  have sess: "session_of (?tx, ?db) = c" by simp
  have nf: "\<not> finished ?tx" using Suc.prems by simp
  show ?case
  proof (cases r0)
    case (Some e)
    with step have "apply_versions eng vs i (tx, db)
        = (Some (Error (CannotApplyMigration i e)), ?tx, ?db)"
      by (simp add: apply_versions_err [OF i0 lt])
    moreover have "run_statements eng (session_of (tx, db)) (drop (nat i) vs) = (Some e, c)"
      using ex Some by (simp add: drop)
    ultimately show ?thesis using lt nf sess Some
      by (intro exI [of _ "Some (Error (CannotApplyMigration i e))"] exI [of _ ?tx] exI [of _ ?db])
        auto
  next
    case None
    with step have next_step: "apply_versions eng vs i (tx, db) = apply_versions eng vs (i + 1) (?tx, ?db)"
      by (simp add: apply_versions_ok [OF i0 lt])
    have d: "d = length vs - nat (i + 1)" using Suc.hyps(2) i0 by simp
    have "\<exists>r tx' db'. apply_versions eng vs (i + 1) (?tx, ?db) = (r, tx', db') \<and> \<not> finished tx' \<and>
     ((r = None \<and>
       run_statements eng (session_of (?tx, ?db)) (drop (nat (i + 1)) vs) = (None, session_of (tx', db')) \<and>
       calls db' = calls ?db @ applied_ok vs (nat (i + 1)) (length vs)) \<or>
      (\<exists>k e. i + 1 \<le> k \<and> k < int (length vs) \<and> r = Some (Error (CannotApplyMigration k e)) \<and>
         run_statements eng (session_of (?tx, ?db)) (drop (nat (i + 1)) vs) = (Some e, session_of (tx', db')) \<and>
         calls db' = calls ?db @ applied_ok vs (nat (i + 1)) (nat k)
            @ [(ExecContext (Migration k) (vs ! nat k), Some e)]))"
      using i0 by (intro Suc.hyps(1) [OF d _ nf]) simp
    then obtain r tx' db' where
      run: "apply_versions eng vs (i + 1) (?tx, ?db) = (r, tx', db')" and
      fin: "\<not> finished tx'" and
      disj: "(r = None \<and>
          run_statements eng c (drop (nat (i + 1)) vs) = (None, session_of (tx', db')) \<and>
          calls db' = calls ?db @ applied_ok vs (nat (i + 1)) (length vs)) \<or>
        (\<exists>k e. i + 1 \<le> k \<and> k < int (length vs) \<and> r = Some (Error (CannotApplyMigration k e)) \<and>
          run_statements eng c (drop (nat (i + 1)) vs) = (Some e, session_of (tx', db')) \<and>
          calls db' = calls ?db @ applied_ok vs (nat (i + 1)) (nat k)
            @ [(ExecContext (Migration k) (vs ! nat k), Some e)])"
      unfolding sess by blast
    have runs: "run_statements eng (session_of (tx, db)) (drop (nat i) vs)
        = run_statements eng c (drop (nat (i + 1)) vs)"
      using ex None by (simp add: drop)
    have cl: "calls ?db = calls db @ [(?c, None)]" using None by simp
    from disj show ?thesis
    proof
      assume a: "r = None \<and>
          run_statements eng c (drop (nat (i + 1)) vs) = (None, session_of (tx', db')) \<and>
          calls db' = calls ?db @ applied_ok vs (nat (i + 1)) (length vs)"
      have "applied_ok vs (nat i) (length vs) = (?c, None) # applied_ok vs (nat (i + 1)) (length vs)"
        using applied_ok_Cons [OF nlt, of vs] i0 by (simp add: suc)
      with a runs next_step run fin cl show ?thesis by simp
    next
      assume "\<exists>k e. i + 1 \<le> k \<and> k < int (length vs) \<and> r = Some (Error (CannotApplyMigration k e)) \<and>
          run_statements eng c (drop (nat (i + 1)) vs) = (Some e, session_of (tx', db')) \<and>
          calls db' = calls ?db @ applied_ok vs (nat (i + 1)) (nat k)
            @ [(ExecContext (Migration k) (vs ! nat k), Some e)]"
      then obtain k e where k: "i + 1 \<le> k" "k < int (length vs)"
        "r = Some (Error (CannotApplyMigration k e))"
        "run_statements eng c (drop (nat (i + 1)) vs) = (Some e, session_of (tx', db'))"
        "calls db' = calls ?db @ applied_ok vs (nat (i + 1)) (nat k)
            @ [(ExecContext (Migration k) (vs ! nat k), Some e)]" by blast
      have "nat i < nat k" using k(1) i0 by simp
      then have "applied_ok vs (nat i) (nat k) = (?c, None) # applied_ok vs (nat (i + 1)) (nat k)"
        using applied_ok_Cons [of "nat i" "nat k" vs] i0 by (simp add: suc)
      with k runs next_step run fin cl show ?thesis by auto
    qed
  qed
qed

lemma run_statements_append:
  "run_statements eng c (xs @ ys) =
     (case run_statements eng c xs of
        (Some e, c') \<Rightarrow> (Some e, c')
      | (None, c') \<Rightarrow> run_statements eng c' ys)"
  by (induction xs arbitrary: c) (auto split: prod.splits option.splits)

lemma trace_append [simp]: "calls db' = calls db @ es \<Longrightarrow> trace db db' = es"
  by (simp add: trace_def)

text \<open>The eight ways out of \<open>Schema_Migrate\<close>, each with its result and its log.\<close>

lemma Schema_Migrate_cases:
  fixes eng :: "'s engine"
  defines "q \<equiv> QueryRowContext ''PRAGMA user_version''"
  assumes run: "Schema_Migrate eng s db = (r, txo, db')"
  obtains
    (begin_failed) e where
      "eng_begin eng (stored db) = Some e" "r = Error (CannotBeginTransaction e)" "txo = None"
      "stored db' = stored db" "calls db' = calls db @ [(Begin, Some e)]"
  | (read_failed) e tx where
      "eng_begin eng (stored db) = None" "counter eng (stored db) = Inl e"
      "r = Error (CannotGetUserVersion e)" "txo = Some tx" "finished tx"
      "stored db' = stored db"
      "calls db' = calls db @ [(Begin, None), (q, Some e), (Rollback, None)]"
  | (up_to_date) v tx where
      "eng_begin eng (stored db) = None" "counter eng (stored db) = Inr v"
      "int (length (Versions s)) \<le> v"
      "r = Success" "txo = Some tx" "finished tx" "stored db' = stored db"
      "calls db' = calls db @ [(Begin, None), (q, None), (Rollback, None)]"
  | (panicked) v tx where
      "eng_begin eng (stored db) = None" "counter eng (stored db) = Inr v" "v < 0"
      "r = PanicIndexOutOfRange v" "txo = Some tx" "finished tx" "stored db' = stored db"
      "calls db' = calls db @ [(Begin, None), (q, None), (Rollback, None)]"
  | (apply_failed) v k e tx c where
      "eng_begin eng (stored db) = None" "counter eng (stored db) = Inr v"
      "0 \<le> v" "v \<le> k" "k < int (length (Versions s))"
      "r = Error (CannotApplyMigration k e)" "txo = Some tx" "finished tx"
      "run_statements eng (opened db) (drop (nat v) (Versions s)) = (Some e, c)"
      "stored db' = durable c"
      "calls db' = calls db @ [(Begin, None), (q, None)] @ applied_ok (Versions s) (nat v) (nat k)
         @ [(ExecContext (Migration k) (Versions s ! nat k), Some e), (Rollback, None)]"
  | (write_failed) v e tx c1 c2 where
      "eng_begin eng (stored db) = None" "counter eng (stored db) = Inr v"
      "0 \<le> v" "v < int (length (Versions s))"
      "r = Error (CannotSetUserVersion e)" "txo = Some tx" "finished tx"
      "run_statements eng (opened db) (drop (nat v) (Versions s)) = (None, c1)"
      "eng_exec eng c1 (Sprintln_user_version (int (length (Versions s)))) = (Some e, c2)"
      "stored db' = durable c2"
      "calls db' = calls db @ [(Begin, None), (q, None)]
         @ applied_ok (Versions s) (nat v) (length (Versions s))
         @ [(ExecContext UserVersion (Sprintln_user_version (int (length (Versions s)))), Some e),
            (Rollback, None)]"
  | (commit_failed) v e tx c where
      "eng_begin eng (stored db) = None" "counter eng (stored db) = Inr v"
      "0 \<le> v" "v < int (length (Versions s))"
      "r = Error (CannotCommit e)" "txo = Some tx" "finished tx"
      "run_statements eng (opened db)
         (drop (nat v) (Versions s) @ [Sprintln_user_version (int (length (Versions s)))])
       = (None, c)"
      "eng_commit eng c = Some e"
      "stored db' = durable c"
      "calls db' = calls db @ [(Begin, None), (q, None)]
         @ applied_ok (Versions s) (nat v) (length (Versions s))
         @ [(ExecContext UserVersion (Sprintln_user_version (int (length (Versions s)))), None),
            (Commit, Some e), (Rollback, Some ErrTxDone)]"
  | (migrated) v tx c where
      "eng_begin eng (stored db) = None" "counter eng (stored db) = Inr v"
      "0 \<le> v" "v < int (length (Versions s))"
      "r = Success" "txo = Some tx" "finished tx"
      "run_statements eng (opened db)
         (drop (nat v) (Versions s) @ [Sprintln_user_version (int (length (Versions s)))])
       = (None, c)"
      "eng_commit eng c = None"
      "stored db' = view c"
      "calls db' = calls db @ [(Begin, None), (q, None)]
         @ applied_ok (Versions s) (nat v) (length (Versions s))
         @ [(ExecContext UserVersion (Sprintln_user_version (int (length (Versions s)))), None),
            (Commit, None), (Rollback, Some ErrTxDone)]"
proof (cases "eng_begin eng (stored db)")
  case (Some e)
  with run have "r = Error (CannotBeginTransaction e)" "txo = None" "db' = logged Begin (Some e) db"
    by (auto simp: Schema_Migrate_def db_Begin_def)
  with Some show thesis by (intro begin_failed [of e]) simp_all
next
  case None
  define tx0 where "tx0 = \<lparr>working = stored db, active = True, finished = False\<rparr>"
  define db1 where "db1 = logged Begin None db"
  let ?V = "Versions s"
  let ?P = "Sprintln_user_version (int (length ?V))"
  have tx0: "working tx0 = stored db" "\<not> finished tx0" by (simp_all add: tx0_def)
  have db1: "stored db1 = stored db" "calls db1 = calls db @ [(Begin, None)]"
    by (simp_all add: db1_def)
  from None have began: "db_Begin eng db = (Inr tx0, db1)"
    by (simp add: db_Begin_def tx0_def db1_def)
  have outer: "(r, txo, db') = (r0, Some tx', db'')"
    if "migrate_body eng s (tx0, db1) = (r0, tx1, db2)" "tx_Rollback (tx1, db2) = (x, tx', db'')"
    for r0 tx1 db2 x tx' db''
    using run began that by (simp add: Schema_Migrate_def)
  have rb_open: "tx_Rollback (tx, d) = (None, tx\<lparr>finished := True\<rparr>, logged Rollback None d)"
    if "\<not> finished tx" for tx :: "'s Tx" and d :: "'s DB"
    using that by (simp add: tx_Rollback_def)
  show thesis
  proof (cases "counter eng (stored db)")
    case (Inl e)
    then have "migrate_body eng s (tx0, db1) = (Error (CannotGetUserVersion e), tx0, logged q (Some e) db1)"
      using tx0 by (simp add: migrate_body_def tx_QueryRowContext_def counter_def q_def)
    from outer [OF this rb_open [OF tx0(2)]] None Inl db1 show thesis
      by (intro read_failed [of e "tx0\<lparr>finished := True\<rparr>"]) simp_all
  next
    case (Inr v)
    define db2 where "db2 = logged q None db1"
    have db2: "stored db2 = stored db" "calls db2 = calls db @ [(Begin, None), (q, None)]"
      by (simp_all add: db2_def db1)
    have s0: "session_of (tx0, db2) = opened db"
      by (simp add: session_of_def opened_def tx0_def db2)
    from Inr have query: "tx_QueryRowContext eng ''PRAGMA user_version'' (tx0, db1) = (Inr v, tx0, db2)"
      using tx0 by (simp add: tx_QueryRowContext_def counter_def q_def db2_def)
    show thesis
    proof (cases "int (length ?V) \<le> v")
      case True
      then have "migrate_body eng s (tx0, db1) = (Success, tx0, db2)"
        using query by (simp add: migrate_body_def)
      from outer [OF this rb_open [OF tx0(2)]] None Inr True db2 show thesis
        by (intro up_to_date [of v "tx0\<lparr>finished := True\<rparr>"]) simp_all
    next
      case False
      then have lt: "v < int (length ?V)" by simp
      show thesis
      proof (cases "v < 0")
        case True
        then have "migrate_body eng s (tx0, db1) = (PanicIndexOutOfRange v, tx0, db2)"
          using query lt by (simp add: migrate_body_def apply_versions_panic)
        from outer [OF this rb_open [OF tx0(2)]] None Inr True db2 show thesis
          by (intro panicked [of v "tx0\<lparr>finished := True\<rparr>"]) simp_all
      next
        case False
        then have v0: "0 \<le> v" by simp
        from apply_versions_run [OF v0 tx0(2), of eng ?V db2] obtain r1 tx1 db3 where
          loop: "apply_versions eng ?V v (tx0, db2) = (r1, tx1, db3)" and
          st3: "\<not> finished tx1" and
          disj: "(r1 = None \<and>
              run_statements eng (opened db) (drop (nat v) ?V) = (None, session_of (tx1, db3)) \<and>
              calls db3 = calls db2 @ applied_ok ?V (nat v) (length ?V)) \<or>
            (\<exists>k e. v \<le> k \<and> k < int (length ?V) \<and> r1 = Some (Error (CannotApplyMigration k e)) \<and>
              run_statements eng (opened db) (drop (nat v) ?V) = (Some e, session_of (tx1, db3)) \<and>
              calls db3 = calls db2 @ applied_ok ?V (nat v) (nat k)
                @ [(ExecContext (Migration k) (?V ! nat k), Some e)])"
          unfolding s0 by blast
        from disj show thesis
        proof
          assume "\<exists>k e. v \<le> k \<and> k < int (length ?V) \<and> r1 = Some (Error (CannotApplyMigration k e)) \<and>
              run_statements eng (opened db) (drop (nat v) ?V) = (Some e, session_of (tx1, db3)) \<and>
              calls db3 = calls db2 @ applied_ok ?V (nat v) (nat k)
                @ [(ExecContext (Migration k) (?V ! nat k), Some e)]"
          then obtain k e where k: "v \<le> k" "k < int (length ?V)"
            "r1 = Some (Error (CannotApplyMigration k e))"
            "run_statements eng (opened db) (drop (nat v) ?V) = (Some e, session_of (tx1, db3))"
            "calls db3 = calls db2 @ applied_ok ?V (nat v) (nat k)
                @ [(ExecContext (Migration k) (?V ! nat k), Some e)]" by blast
          have "migrate_body eng s (tx0, db1) = (Error (CannotApplyMigration k e), tx1, db3)"
            using query lt loop k(3) by (simp add: migrate_body_def)
          from outer [OF this rb_open [OF st3]] None Inr v0 k st3 db2 show thesis
            by (intro apply_failed [of v k e "tx1\<lparr>finished := True\<rparr>" "session_of (tx1, db3)"])
              simp_all
        next
          assume ok: "r1 = None \<and>
              run_statements eng (opened db) (drop (nat v) ?V) = (None, session_of (tx1, db3)) \<and>
              calls db3 = calls db2 @ applied_ok ?V (nat v) (length ?V)"
          obtain r2 c where ex: "eng_exec eng (session_of (tx1, db3)) ?P = (r2, c)"
            by (cases "eng_exec eng (session_of (tx1, db3)) ?P") auto
          define tx2 where "tx2 = tx1\<lparr>working := view c, active := in_tx c\<rparr>"
          define db4 where "db4 = logged (ExecContext UserVersion ?P) r2 (db3\<lparr>stored := durable c\<rparr>)"
          have wrote: "tx_ExecContext eng UserVersion ?P (tx1, db3) = (r2, tx2, db4)"
            using st3 ex by (simp add: tx_ExecContext_open tx2_def db4_def)
          have tx2: "\<not> finished tx2" using st3 by (simp add: tx2_def)
          have s4: "session_of (tx2, db4) = c" by (simp add: tx2_def db4_def)
          have db4: "stored db4 = durable c"
            "calls db4 = calls db @ [(Begin, None), (q, None)] @ applied_ok ?V (nat v) (length ?V)
               @ [(ExecContext UserVersion ?P, r2)]"
            using ok db2 by (simp_all add: db4_def)
          show thesis
          proof (cases r2)
            case (Some e)
            then have "migrate_body eng s (tx0, db1) = (Error (CannotSetUserVersion e), tx2, db4)"
              using query lt loop ok wrote by (simp add: migrate_body_def)
            from outer [OF this rb_open [OF tx2]] None Inr v0 lt ok ex Some db4 show thesis
              by (intro write_failed [of v e "tx2\<lparr>finished := True\<rparr>" "session_of (tx1, db3)" c])
                simp_all
          next
            case w: None
            have body1: "migrate_body eng s (tx0, db1)
                = (case tx_Commit eng (tx2, db4) of
                     (Some e, st4) \<Rightarrow> (Error (CannotCommit e), st4)
                   | (None, st4) \<Rightarrow> (Success, st4))"
              using query lt loop ok wrote w by (simp add: migrate_body_def)
            have rb_done: "tx_Rollback (tx2\<lparr>finished := True\<rparr>, d)
                = (Some ErrTxDone, tx2\<lparr>finished := True\<rparr>, logged Rollback (Some ErrTxDone) d)"
              for d :: "'s DB"
              by (simp add: tx_Rollback_def)
            have all: "run_statements eng (opened db) (drop (nat v) ?V @ [?P]) = (None, c)"
              using ok ex w by (simp add: run_statements_append)
            show thesis
            proof (cases "eng_commit eng c")
              case (Some e)
              then have "migrate_body eng s (tx0, db1)
                  = (Error (CannotCommit e), tx2\<lparr>finished := True\<rparr>, logged Commit (Some e) db4)"
                using body1 tx2 s4 by (simp add: tx_Commit_def)
              from outer [OF this rb_done] None Inr v0 lt all Some db4 w show thesis
                by (intro commit_failed [of v e "tx2\<lparr>finished := True\<rparr>" c]) simp_all
            next
              case None': None
              then have "migrate_body eng s (tx0, db1)
                  = (Success, tx2\<lparr>finished := True\<rparr>, logged Commit None (db4\<lparr>stored := working tx2\<rparr>))"
                using body1 tx2 s4 by (simp add: tx_Commit_def)
              moreover have "working tx2 = view c" by (simp add: tx2_def)
              ultimately show thesis
                using outer [OF _ rb_done] None Inr v0 lt all None' db4 w
                by (intro migrated [of v "tx2\<lparr>finished := True\<rparr>" c]) simp_all
            qed
          qed
        qed
      qed
    qed
  qed
qed

lemma migrations_of_append:
  "migrations_of (xs @ ys) = migrations_of xs @ migrations_of ys"
  by (induction xs rule: migrations_of.induct) simp_all

lemma migrations_of_applied_ok:
  "migrations_of (applied_ok vs a b) = map (\<lambda>j. (int j, vs ! j, None)) [a..<b]"
proof -
  have "migrations_of (map (\<lambda>j. (ExecContext (Migration (int j)) (vs ! j), None)) js)
      = map (\<lambda>j. (int j, vs ! j, None)) js" for js
    by (induction js) simp_all
  then show ?thesis by (simp add: applied_ok_def)
qed

lemma filter_applied_ok [simp]:
  "filter is_read (applied_ok vs a b) = []" "filter is_write (applied_ok vs a b) = []"
  by (simp_all add: applied_ok_def filter_empty_conv)

lemma Commit_applied_ok [simp]: "(Commit, x) \<notin> set (applied_ok vs a b)"
  by (auto simp: applied_ok_def)

lemma Rollback_applied_ok [simp]: "filter (\<lambda>e. fst e = Rollback) (applied_ok vs a b) = []"
  by (simp add: applied_ok_def filter_empty_conv)

lemma counter_after_write:
  assumes "user_version_register eng"
    and "run_statements eng c0 (qs @ [Sprintln_user_version (int n)]) = (None, c)"
  shows "counter eng (view c) = Inr (int n)"
proof -
  from assms(2) obtain c1 where "eng_exec eng c1 (Sprintln_user_version (int n)) = (None, c)"
    by (auto simp: run_statements_append split: prod.splits option.splits)
  with assms(1) show ?thesis unfolding user_version_register_def by blast
qed

lemma up_to_date_run:
  assumes "eng_begin eng (stored db) = None" and "counter eng (stored db) = Inr v"
    and "int (length (Versions s)) \<le> v"
  shows "\<exists>tx db'. Schema_Migrate eng s db = (Success, Some tx, db') \<and> stored db' = stored db \<and>
     trace db db' = [(Begin, None), (QueryRowContext ''PRAGMA user_version'', None), (Rollback, None)]"
proof -
  obtain r txo db' where run: "Schema_Migrate eng s db = (r, txo, db')"
    by (cases "Schema_Migrate eng s db") auto
  from run run assms show ?thesis
    by (cases rule: Schema_Migrate_cases) simp_all
qed

text \<open>
  When every text that \<open>Migrate\<close> executes leaves the transaction alone, a call that
  does not return success leaves the stored contents as they were.
\<close>

lemma kept_by_run:
  assumes "\<forall>q\<in>set qs. keeps_transaction eng q" and "in_tx c"
    and "run_statements eng c qs = (r, c')"
  shows "in_tx c' \<and> durable c' = durable c"
  using assms
proof (induction qs arbitrary: c)
  case Nil
  then show ?case by simp
next
  case (Cons q qs)
  obtain r1 c1 where ex: "eng_exec eng c q = (r1, c1)" by (cases "eng_exec eng c q") auto
  from Cons.prems(1,2) ex have k: "in_tx c1 \<and> durable c1 = durable c"
    by (auto simp: keeps_transaction_def dest!: spec [of _ c])
  show ?case
  proof (cases r1)
    case (Some e)
    with Cons.prems(3) ex k show ?thesis by simp
  next
    case None
    with Cons.prems(3) ex have "run_statements eng c1 qs = (r, c')" by simp
    with Cons.IH [of c1] Cons.prems(1) k show ?thesis by simp
  qed
qed

lemma error_keeps_stored:
  assumes run: "Schema_Migrate eng s db = (r, txo, db')" and "r \<noteq> Success"
    and bodies: "\<forall>v. counter eng (stored db) = Inr v \<longrightarrow>
        (\<forall>q\<in>set (drop (nat v) (Versions s)). keeps_transaction eng q)"
    and pragma: "keeps_transaction eng (Sprintln_user_version (int (length (Versions s))))"
  shows "stored db' = stored db"
  using run
proof (cases rule: Schema_Migrate_cases)
  case (apply_failed v k e tx c)
  have "\<forall>q\<in>set (drop (nat v) (Versions s)). keeps_transaction eng q"
    using bodies apply_failed(2) by blast
  from kept_by_run [OF this _ apply_failed(9)] apply_failed(10) show ?thesis by simp
next
  case (write_failed v e tx c1 c2)
  have "\<forall>q\<in>set (drop (nat v) (Versions s)). keeps_transaction eng q"
    using bodies write_failed(2) by blast
  from kept_by_run [OF this _ write_failed(8)] have "in_tx c1 \<and> durable c1 = stored db" by simp
  with pragma write_failed(9,10) show ?thesis
    by (auto simp: keeps_transaction_def dest!: spec [of _ c1])
next
  case (commit_failed v e tx c)
  have "\<forall>q\<in>set (drop (nat v) (Versions s) @ [Sprintln_user_version (int (length (Versions s)))]).
      keeps_transaction eng q"
    using bodies commit_failed(2) pragma by auto
  from kept_by_run [OF this _ commit_failed(8)] commit_failed(10) show ?thesis by simp
next
  case (migrated v tx c)
  with assms(2) show ?thesis by simp
qed (use assms(2) in simp_all)

section \<open>The properties of the specification\<close>

subsection \<open>The default delimiter\<close>

text \<open>
  C9 (as amended): the default delimiter, which \<open>NewSchema\<close> and the package-level
  \<open>Migrate\<close> use, is a fixed string of exactly 79 characters (33 dashes, the text
  \<open>NEW VERSION\<close> between two spaces, 33 dashes); it begins and ends with a dash and
  contains the text \<open>NEW VERSION\<close>.
\<close>

theorem Delimiter_shape:
  "length Delimiter = 79 \<and> hd Delimiter = CHR ''-'' \<and> last Delimiter = CHR ''-'' \<and>
   Contains Delimiter ''NEW VERSION'' \<and>
   Delimiter = replicate 33 CHR ''-'' @ '' NEW VERSION '' @ replicate 33 CHR ''-'' \<and>
   magic (NewSchema sch) = Delimiter \<and>
   Migrate eng db sch = Schema_Migrate eng (NewSchemaWithMagic sch Delimiter) db"
  by (simp add: Delimiter_def Contains_def HasPrefix_def NewSchema_def NewSchemaWithMagic_def
      Migrate_def eval_nat_numeral)

text \<open>The delimiter does not have 80 characters.\<close>

theorem Delimiter_length_counterexample: "length Delimiter \<noteq> 80"
  by (simp add: Delimiter_def)

subsection \<open>Versions\<close>



text \<open>
  C6 (as amended): for every non-empty list of strings such that no instance of the
  separator begins inside any of them once they are joined (none but the last holds an
  instance even when followed by the separator without its last character, and the
  last one holds none), \<open>Versions\<close> of the strings joined with the separator gives back
  exactly these strings, in order.
\<close>

theorem Versions_of_Join:
  assumes "xs \<noteq> []"
    and "\<forall>x\<in>set (butlast xs). \<not> Contains (x @ butlast (separator d)) (separator d)"
    and "\<not> Contains (last xs) (separator d)"
  shows "Versions (NewSchemaWithMagic (Join xs (separator d)) d) = xs"
  using assms Split_Join [OF separator_not_Nil, of xs d]
  by (simp add: Versions_def NewSchemaWithMagic_def)

theorem Versions_of_Join_witness:
  "[''a'', ''b'', ''c''] \<noteq> [] \<and>
   \<not> Contains (''a'' @ butlast (separator ''--'')) (separator ''--'') \<and>
   \<not> Contains (''b'' @ butlast (separator ''--'')) (separator ''--'') \<and>
   \<not> Contains ''c'' (separator ''--'') \<and>
   Versions (NewSchemaWithMagic (Join [''a'', ''b'', ''c''] (separator ''--'')) ''--'') = [''a'', ''b'', ''c'']"
proof -
  have h: "\<not> Contains (''a'' @ butlast (separator ''--'')) (separator ''--'')"
    "\<not> Contains (''b'' @ butlast (separator ''--'')) (separator ''--'')"
    "\<not> Contains ''c'' (separator ''--'')"
    by (simp_all add: separator_def Contains_def HasPrefix_def)
  with Versions_of_Join [of "[''a'', ''b'', ''c'']" "''--''"] show ?thesis by simp
qed

text \<open>
  As the claim states it, with strings that merely do not contain the separator, the
  property fails: the string \<open>a\<close>, newline, delimiter does not contain the separator,
  but joined with \<open>b\<close> it is cut after \<open>a\<close>.
\<close>

theorem Versions_of_Join_counterexample:
  "\<not> Contains (''a'' @ ''\<newline>'' @ Delimiter) (separator Delimiter) \<and>
   \<not> Contains ''b'' (separator Delimiter) \<and>
   Versions (NewSchema (Join [''a'' @ ''\<newline>'' @ Delimiter, ''b''] (separator Delimiter)))
     = [''a'', Delimiter @ ''\<newline>b''] \<and>
   [''a'', Delimiter @ ''\<newline>b''] \<noteq> [''a'' @ ''\<newline>'' @ Delimiter, ''b'']"
  by (simp add: Versions_def NewSchema_def NewSchemaWithMagic_def separator_def Delimiter_def
      Split.simps Contains_def HasPrefix_def)

text \<open>
  C10: \<open>Versions\<close> never returns the empty list, and for the empty schema string it
  returns the list holding the empty string. So \<open>Migrate\<close> with an empty schema on a
  database whose counter is 0 is not a no-op: it executes exactly one version body, the
  empty statement at index 0, and when it returns success the counter is 1.
\<close>

theorem Versions_never_empty:
  "Versions s \<noteq> [] \<and> Versions (NewSchemaWithMagic '''' d) = [''''] \<and>
   (eng_begin eng (stored db) = None \<and> counter eng (stored db) = Inr 0 \<longrightarrow>
     (\<exists>r tx db'. Schema_Migrate eng (NewSchemaWithMagic '''' d) db = (r, Some tx, db') \<and>
        (\<exists>x. migrations_of (trace db db') = [(0, '''', x)]) \<and>
        (r = Success \<and> user_version_register eng \<longrightarrow> counter eng (stored db') = Inr 1)))"
proof (intro conjI impI)
  show "Versions s \<noteq> []"
    by (simp add: Versions_def Split_not_Nil separator_not_Nil)
  show one: "Versions (NewSchemaWithMagic '''' d) = ['''']"
    by (simp add: Versions_def NewSchemaWithMagic_def Split_None separator_not_Nil)
  assume a: "eng_begin eng (stored db) = None \<and> counter eng (stored db) = Inr 0"
  obtain r txo db' where run: "Schema_Migrate eng (NewSchemaWithMagic '''' d) db = (r, txo, db')"
    by (cases "Schema_Migrate eng (NewSchemaWithMagic '''' d) db") auto
  from run run a show "\<exists>r tx db'. Schema_Migrate eng (NewSchemaWithMagic '''' d) db = (r, Some tx, db') \<and>
        (\<exists>x. migrations_of (trace db db') = [(0, '''', x)]) \<and>
        (r = Success \<and> user_version_register eng \<longrightarrow> counter eng (stored db') = Inr 1)"
  proof (cases rule: Schema_Migrate_cases)
    case (migrated v tx c)
    have "counter eng (stored db') = Inr 1" if "user_version_register eng"
      using counter_after_write [OF that migrated(8)] migrated(10) by (simp add: one)
    with run migrated one a show ?thesis
      by (auto simp: migrations_of_append migrations_of_applied_ok)
  qed (auto simp: one migrations_of_append migrations_of_applied_ok)
qed

theorem Versions_never_empty_witness:
  "Versions (NewSchemaWithMagic '''' Delimiter) = [''''] \<and>
   counter (sim_engine []) (stored (sim_db 0)) = Inr 0 \<and>
   fst (Schema_Migrate (sim_engine []) (NewSchemaWithMagic '''' Delimiter) (sim_db 0)) = Success \<and>
   migrations_of (trace (sim_db 0)
       (snd (snd (Schema_Migrate (sim_engine []) (NewSchemaWithMagic '''' Delimiter) (sim_db 0)))))
     = [(0, '''', None)] \<and>
   counter (sim_engine [])
     (stored (snd (snd (Schema_Migrate (sim_engine []) (NewSchemaWithMagic '''' Delimiter) (sim_db 0)))))
     = Inr 1"
proof -
  let ?E = "sim_engine []"
  let ?R = "Schema_Migrate ?E (NewSchemaWithMagic '''' Delimiter) (sim_db 0)"
  have h: "eng_begin ?E (stored (sim_db 0)) = None \<and> counter ?E (stored (sim_db 0)) = Inr 0"
    by (simp add: sim_db_ready)
  have r: "fst ?R = Success" by (simp add: run_defs)
  have m: "migrations_of (trace (sim_db 0) (snd (snd ?R))) = [(0, '''', None)]"
    by (simp add: run_defs)
  from Versions_never_empty [of "NewSchemaWithMagic '''' Delimiter" Delimiter ?E "sim_db 0"] h r
    sim_register [of "[]"]
  have "Versions (NewSchemaWithMagic '''' Delimiter) = [''''] \<and> counter ?E (stored (snd (snd ?R))) = Inr 1"
    by auto
  with h r m show ?thesis by simp
qed

subsection \<open>Migrate\<close>

text \<open>
  C1 (as amended): for every schema source and database such that the texts to execute
  leave the transaction alone (executed in an open transaction, no version body from
  the counter of the database on, and not the statement that writes the counter, writes
  the stored contents or closes the transaction: no pending body commits or rolls back
  by itself), whenever \<open>Migrate\<close> returns an error, whatever the stage that failed, the
  stored contents of the database, and with them the counter, are those from before
  the call. In particular, with two versions of which the first succeeds
  and the second fails, neither having written the stored contents, on a database whose
  counter is 0, \<open>Migrate\<close> returns the error that names index 1 and wraps the error of
  the database; the counter is still 0 and nothing of the first version is stored.
\<close>

theorem Migrate_error_atomic:
  "((\<forall>v. counter eng (stored db) = Inr v \<longrightarrow>
        (\<forall>q\<in>set (drop (nat v) (Versions s)). keeps_transaction eng q)) \<and>
    keeps_transaction eng (Sprintln_user_version (int (length (Versions s)))) \<and>
    Schema_Migrate eng s db = (Error err, txo, db') \<longrightarrow>
      stored db' = stored db \<and> counter eng (stored db') = counter eng (stored db)) \<and>
   (Versions s = [V0, V1] \<and> eng_begin eng (stored db) = None \<and>
    counter eng (stored db) = Inr 0 \<and>
    eng_exec eng (opened db) V0 = (None, c1) \<and> eng_exec eng c1 V1 = (Some x, c2) \<and>
    durable c2 = stored db \<longrightarrow>
      (\<exists>tx db''. Schema_Migrate eng s db = (Error (CannotApplyMigration 1 x), Some tx, db'') \<and>
         stored db'' = stored db \<and> counter eng (stored db'') = Inr 0))"
proof -
  have unchanged: "stored db' = stored db \<and> counter eng (stored db') = counter eng (stored db)"
    if "\<forall>v. counter eng (stored db) = Inr v \<longrightarrow>
        (\<forall>q\<in>set (drop (nat v) (Versions s)). keeps_transaction eng q)"
      and "keeps_transaction eng (Sprintln_user_version (int (length (Versions s))))"
      and "Schema_Migrate eng s db = (Error err, txo, db')"
    using error_keeps_stored [OF that(3) _ that(1,2)] by simp
  have scenario: "\<exists>tx db''. Schema_Migrate eng s db = (Error (CannotApplyMigration 1 x), Some tx, db'') \<and>
         stored db'' = stored db \<and> counter eng (stored db'') = Inr 0"
    if a: "Versions s = [V0, V1] \<and> eng_begin eng (stored db) = None \<and>
      counter eng (stored db) = Inr 0 \<and>
      eng_exec eng (opened db) V0 = (None, c1) \<and> eng_exec eng c1 V1 = (Some x, c2) \<and>
      durable c2 = stored db"
  proof -
    define tx0 where "tx0 = \<lparr>working = stored db, active = True, finished = False\<rparr>"
    define db2 where
      "db2 = logged (QueryRowContext ''PRAGMA user_version'') None (logged Begin None db)"
    have s0: "session_of (tx0, db2) = opened db"
      by (simp add: session_of_def opened_def tx0_def db2_def)
    define tx1 where "tx1 = tx0\<lparr>working := view c1, active := in_tx c1\<rparr>"
    define db3 where "db3 = logged (ExecContext (Migration 0) V0) None (db2\<lparr>stored := durable c1\<rparr>)"
    have nf0: "\<not> finished tx0" by (simp add: tx0_def)
    have e0: "eng_exec eng (session_of (tx0, db2)) V0 = (None, c1)" using a s0 by simp
    have first: "tx_ExecContext eng (Migration 0) V0 (tx0, db2) = (None, tx1, db3)"
      unfolding tx1_def db3_def by (rule tx_ExecContext_open [OF nf0 e0])
    have s1: "session_of (tx1, db3) = c1" by (simp add: tx1_def db3_def)
    define tx2 where "tx2 = tx1\<lparr>working := view c2, active := in_tx c2\<rparr>"
    define db4 where "db4 = logged (ExecContext (Migration 1) V1) (Some x) (db3\<lparr>stored := durable c2\<rparr>)"
    have nf1: "\<not> finished tx1" by (simp add: tx1_def tx0_def)
    have e1: "eng_exec eng (session_of (tx1, db3)) V1 = (Some x, c2)" using a s1 by simp
    have second: "tx_ExecContext eng (Migration 1) V1 (tx1, db3) = (Some x, tx2, db4)"
      unfolding tx2_def db4_def by (rule tx_ExecContext_open [OF nf1 e1])
    have "apply_versions eng [V0, V1] 0 (tx0, db2) = apply_versions eng [V0, V1] 1 (tx1, db3)"
      using apply_versions_ok [of 0 "[V0, V1]" eng "(tx0, db2)" "(tx1, db3)"] first by simp
    also have "\<dots> = (Some (Error (CannotApplyMigration 1 x)), tx2, db4)"
      using apply_versions_err [of 1 "[V0, V1]" eng "(tx1, db3)" x "(tx2, db4)"] second by simp
    finally have loop: "apply_versions eng [V0, V1] 0 (tx0, db2)
        = (Some (Error (CannotApplyMigration 1 x)), tx2, db4)" .
    have nf2: "\<not> finished tx2" by (simp add: tx2_def tx1_def tx0_def)
    have st4: "stored db4 = stored db" using a by (simp add: db4_def)
    have began: "db_Begin eng db = (Inr tx0, logged Begin None db)"
      using a by (simp add: db_Begin_def tx0_def)
    have query: "tx_QueryRowContext eng ''PRAGMA user_version'' (tx0, logged Begin None db)
        = (Inr 0, tx0, db2)"
      using a by (simp add: tx_QueryRowContext_def counter_def tx0_def db2_def)
    have body: "migrate_body eng s (tx0, logged Begin None db)
        = (Error (CannotApplyMigration 1 x), tx2, db4)"
      using a query loop by (simp add: migrate_body_def)
    have "Schema_Migrate eng s db
        = (Error (CannotApplyMigration 1 x), Some (tx2\<lparr>finished := True\<rparr>),
           logged Rollback None db4)"
      using began body nf2 by (simp add: Schema_Migrate_def tx_Rollback_def)
    with st4 a show ?thesis by simp
  qed
  from unchanged scenario show ?thesis by blast
qed

theorem Migrate_error_atomic_witness:
  "Versions broken_schema = [''CREATE TABLE t(x INT);'', ''INVALID''] \<and>
   counter (sim_engine [''INVALID'']) (stored (sim_db 0)) = Inr 0 \<and>
   fst (Schema_Migrate (sim_engine [''INVALID'']) broken_schema (sim_db 0))
     = Error (CannotApplyMigration 1 (DriverError ''syntax error'')) \<and>
   stored (snd (snd (Schema_Migrate (sim_engine [''INVALID'']) broken_schema (sim_db 0))))
     = stored (sim_db 0)"
proof -
  let ?E = "sim_engine [''INVALID'']"
  let ?R = "Schema_Migrate ?E broken_schema (sim_db 0)"
  let ?w = "\<lparr>sim_user_version = 0, sim_applied = [''CREATE TABLE t(x INT)''], sim_locked = False\<rparr>"
  let ?c1 = "\<lparr>durable = stored (sim_db 0), view = ?w, in_tx = True\<rparr>"
  let ?x = "DriverError ''syntax error''"
  have h: "eng_exec ?E (opened (sim_db 0)) ''CREATE TABLE t(x INT);'' = (None, ?c1)"
    "eng_exec ?E ?c1 ''INVALID'' = (Some ?x, ?c1)" "durable ?c1 = stored (sim_db 0)"
    by (simp_all add: opened_def run_defs)
  note inst = Migrate_error_atomic [where eng = ?E and s = broken_schema and db = "sim_db 0"
      and err = "CannotApplyMigration 1 ?x" and txo = "fst (snd ?R)" and db' = "snd (snd ?R)"
      and ?V0.0 = "''CREATE TABLE t(x INT);''" and ?V1.0 = "''INVALID''" and ?c1.0 = ?c1
      and x = ?x and ?c2.0 = ?c1]
  from inst Versions_broken sim_db_ready [of "[''INVALID'']" 0] h
  have r: "fst ?R = Error (CannotApplyMigration 1 ?x)"
    by fastforce
  from inst triple_eq [OF r] broken_keeps [of "[''INVALID'']"]
    sim_keeps_write [of "[''INVALID'']" "length (Versions broken_schema)"]
  have "stored (snd (snd ?R)) = stored (sim_db 0)"
    by blast
  with Versions_broken sim_db_ready(2) r show ?thesis by blast
qed

text \<open>
  As the claim states it, for every schema source, the property fails: line 71 hands a
  body to the database as it is, and a first version that ends with \<^verbatim>\<open>COMMIT\<close> and
  \<^verbatim>\<open>BEGIN\<close> has stored its table when the second version fails. \<open>Migrate\<close> returns the
  error that names index 1, and the table is in the database.
\<close>

theorem Migrate_error_atomic_counterexample:
  "fst (Schema_Migrate (sim_engine [''INVALID'']) committing_schema (sim_db 0))
     = Error (CannotApplyMigration 1 (DriverError ''syntax error'')) \<and>
   stored (sim_db 0) = \<lparr>sim_user_version = 0, sim_applied = [], sim_locked = False\<rparr> \<and>
   stored (snd (snd (Schema_Migrate (sim_engine [''INVALID'']) committing_schema (sim_db 0))))
     = \<lparr>sim_user_version = 0, sim_applied = [''CREATE TABLE t(x INT)''], sim_locked = False\<rparr>"
  by (simp add: committing_schema_def run_defs)

text \<open>
  C3 (as amended): if \<open>Migrate\<close> returns success on a database whose counter was at
  most the number of versions, then the counter afterwards is the number of versions,
  and every version body from the starting counter up to the last has been executed, in
  order and without error, the stored contents being what these statements and the
  write of the counter made of the contents before. If the counter was above the number
  of versions, success leaves the stored contents, and so the counter, as they were.
\<close>

theorem Migrate_success:
  assumes "Schema_Migrate eng s db = (Success, txo, db')" and "user_version_register eng"
  shows "\<exists>v. counter eng (stored db) = Inr v \<and>
     (int (length (Versions s)) < v \<longrightarrow> stored db' = stored db) \<and>
     (v \<le> int (length (Versions s)) \<longrightarrow>
        0 \<le> v \<and>
        counter eng (stored db') = Inr (int (length (Versions s))) \<and>
        migrations_of (trace db db')
          = map (\<lambda>j. (int j, Versions s ! j, None)) [nat v..<length (Versions s)] \<and>
        (v < int (length (Versions s)) \<longrightarrow>
           (\<exists>c. run_statements eng (opened db)
                  (drop (nat v) (Versions s) @ [Sprintln_user_version (int (length (Versions s)))])
                = (None, c) \<and> stored db' = view c)))"
  using assms(1)
proof (cases rule: Schema_Migrate_cases)
  case (up_to_date v tx)
  then show ?thesis
    by (auto simp: migrations_of_append)
next
  case (migrated v tx c)
  with counter_after_write [OF assms(2) migrated(8)] show ?thesis
    by (auto simp: migrations_of_append migrations_of_applied_ok)
qed simp_all

theorem Migrate_success_witness:
  "fst (Schema_Migrate (sim_engine []) example_schema (sim_db 0)) = Success \<and>
   counter (sim_engine []) (stored (sim_db 0)) = Inr 0 \<and>
   counter (sim_engine []) (stored (snd (snd (Schema_Migrate (sim_engine []) example_schema (sim_db 0)))))
     = Inr 2 \<and>
   migrations_of (trace (sim_db 0) (snd (snd (Schema_Migrate (sim_engine []) example_schema (sim_db 0)))))
     = [(0, ''CREATE TABLE t(x INT);'', None), (1, ''ALTER TABLE t ADD COLUMN y INT;'', None)]"
proof -
  let ?E = "sim_engine []"
  let ?R = "Schema_Migrate ?E example_schema (sim_db 0)"
  have r: "fst ?R = Success" by (simp add: example_schema_def run_defs)
  have c: "counter ?E (stored (sim_db 0)) = Inr 0" by (rule sim_db_ready)
  from Migrate_success [OF triple_eq [OF r] sim_register] c
  have "counter ?E (stored (snd (snd ?R))) = Inr (int (length (Versions example_schema))) \<and>
     migrations_of (trace (sim_db 0) (snd (snd ?R)))
       = map (\<lambda>j. (int j, Versions example_schema ! j, None)) [nat 0..<length (Versions example_schema)]"
    by auto
  then show ?thesis using r c by (simp add: Versions_example upt_conv_Cons)
qed

text \<open>
  As the claim states it, the property fails: with a counter of 5 and a single version,
  \<open>Migrate\<close> returns success and the counter is still 5.
\<close>

theorem Migrate_success_counterexample:
  "fst (Schema_Migrate (sim_engine []) (NewSchema '''') (sim_db 5)) = Success \<and>
   counter (sim_engine []) (stored (snd (snd (Schema_Migrate (sim_engine []) (NewSchema '''') (sim_db 5)))))
     = Inr 5 \<and>
   int (length (Versions (NewSchema ''''))) = 1"
  by (simp add: run_defs)

text \<open>
  C4: on a database that accepts a transaction and whose counter is at least the number
  of versions, \<open>Migrate\<close> returns success after \<^verbatim>\<open>Begin\<close>, the read of the counter and
  the deferred \<^verbatim>\<open>Rollback\<close>: it executes no statement and leaves the stored contents
  as they were. Consequently, after a call that returned success, a second call with the
  same source (on a database that accepts the transaction) returns success, executes no
  statement, and leaves the stored contents and the counter as they were.
\<close>

theorem Migrate_up_to_date:
  "(eng_begin eng (stored db) = None \<and> counter eng (stored db) = Inr v \<and>
    int (length (Versions s)) \<le> v \<longrightarrow>
      (\<exists>tx db'. Schema_Migrate eng s db = (Success, Some tx, db') \<and> stored db' = stored db \<and>
         trace db db' = [(Begin, None), (QueryRowContext ''PRAGMA user_version'', None),
                         (Rollback, None)])) \<and>
   (Schema_Migrate eng s db = (Success, txo, db1) \<and> user_version_register eng \<and>
    eng_begin eng (stored db1) = None \<longrightarrow>
      (\<exists>tx db2. Schema_Migrate eng s db1 = (Success, Some tx, db2) \<and> stored db2 = stored db1 \<and>
         trace db1 db2 = [(Begin, None), (QueryRowContext ''PRAGMA user_version'', None),
                          (Rollback, None)]))"
proof (intro conjI impI)
  assume "eng_begin eng (stored db) = None \<and> counter eng (stored db) = Inr v \<and>
    int (length (Versions s)) \<le> v"
  then show "\<exists>tx db'. Schema_Migrate eng s db = (Success, Some tx, db') \<and> stored db' = stored db \<and>
         trace db db' = [(Begin, None), (QueryRowContext ''PRAGMA user_version'', None),
                         (Rollback, None)]"
    by (simp add: up_to_date_run)
next
  assume a: "Schema_Migrate eng s db = (Success, txo, db1) \<and> user_version_register eng \<and>
    eng_begin eng (stored db1) = None"
  then have run: "Schema_Migrate eng s db = (Success, txo, db1)" and reg: "user_version_register eng"
    and beg: "eng_begin eng (stored db1) = None" by simp_all
  from run have "\<exists>u. counter eng (stored db1) = Inr u \<and> int (length (Versions s)) \<le> u"
  proof (cases rule: Schema_Migrate_cases)
    case (up_to_date v tx)
    then show ?thesis by simp
  next
    case (migrated v tx c)
    with counter_after_write [OF reg migrated(8)] show ?thesis by simp
  qed simp_all
  then obtain u where "counter eng (stored db1) = Inr u" "int (length (Versions s)) \<le> u"
    by blast
  with beg show "\<exists>tx db2. Schema_Migrate eng s db1 = (Success, Some tx, db2) \<and> stored db2 = stored db1 \<and>
         trace db1 db2 = [(Begin, None), (QueryRowContext ''PRAGMA user_version'', None),
                          (Rollback, None)]"
    by (simp add: up_to_date_run)
qed

theorem Migrate_up_to_date_witness:
  "counter (sim_engine []) (stored (sim_db 2)) = Inr 2 \<and>
   fst (Schema_Migrate (sim_engine []) example_schema (sim_db 2)) = Success \<and>
   trace (sim_db 2) (snd (snd (Schema_Migrate (sim_engine []) example_schema (sim_db 2))))
     = [(Begin, None), (QueryRowContext ''PRAGMA user_version'', None), (Rollback, None)] \<and>
   fst (Schema_Migrate (sim_engine []) example_schema (sim_db 0)) = Success \<and>
   fst (Schema_Migrate (sim_engine []) example_schema
          (snd (snd (Schema_Migrate (sim_engine []) example_schema (sim_db 0))))) = Success \<and>
   stored (snd (snd (Schema_Migrate (sim_engine []) example_schema
          (snd (snd (Schema_Migrate (sim_engine []) example_schema (sim_db 0)))))))
     = stored (snd (snd (Schema_Migrate (sim_engine []) example_schema (sim_db 0))))"
proof -
  let ?E = "sim_engine []"
  let ?R = "Schema_Migrate ?E example_schema (sim_db 0)"
  have r: "fst ?R = Success" by (simp add: example_schema_def run_defs)
  have b: "eng_begin ?E (stored (snd (snd ?R))) = None" by (simp add: example_schema_def run_defs)
  note first = Migrate_up_to_date [of ?E "sim_db 2" 2 example_schema]
  note again = Migrate_up_to_date [of ?E "sim_db 0" _ example_schema "fst (snd ?R)" "snd (snd ?R)"]
  from first sim_db_ready [of "[]" 2] have
    "\<exists>tx db'. Schema_Migrate ?E example_schema (sim_db 2) = (Success, Some tx, db') \<and>
       stored db' = stored (sim_db 2) \<and>
       trace (sim_db 2) db' = [(Begin, None), (QueryRowContext ''PRAGMA user_version'', None),
                         (Rollback, None)]"
    by (simp add: Versions_example)
  moreover from again triple_eq [OF r] sim_register b have
    "\<exists>tx db2. Schema_Migrate ?E example_schema (snd (snd ?R)) = (Success, Some tx, db2) \<and>
       stored db2 = stored (snd (snd ?R)) \<and>
       trace (snd (snd ?R)) db2 = [(Begin, None), (QueryRowContext ''PRAGMA user_version'', None),
                          (Rollback, None)]"
    by blast
  ultimately show ?thesis using sim_db_ready(2) [of "[]" 2] r by force
qed

text \<open>
  C5 (as amended): for every starting counter \<open>v\<close> with \<open>0 \<le> v\<close> below the number of
  versions, \<open>Migrate\<close> executes the version bodies of indices \<open>v\<close>, \<open>v + 1\<close>, ... in ascending
  order. Either all of them up to the last succeed, or the first one that fails, of index
  \<open>k\<close>, ends the loop: no later body is executed, and the result is the error that holds
  \<open>k\<close> and wraps the error returned by the database.
\<close>

theorem Migrate_applies_pending:
  assumes "eng_begin eng (stored db) = None" and "counter eng (stored db) = Inr v"
    and "0 \<le> v" and "v < int (length (Versions s))"
  shows "\<exists>r tx db'. Schema_Migrate eng s db = (r, Some tx, db') \<and>
     ((migrations_of (trace db db')
         = map (\<lambda>j. (int j, Versions s ! j, None)) [nat v..<length (Versions s)] \<and>
       (\<forall>k e. r \<noteq> Error (CannotApplyMigration k e))) \<or>
      (\<exists>k e. v \<le> k \<and> k < int (length (Versions s)) \<and> r = Error (CannotApplyMigration k e) \<and>
         migrations_of (trace db db')
           = map (\<lambda>j. (int j, Versions s ! j, None)) [nat v..<nat k]
             @ [(k, Versions s ! nat k, Some e)]))"
proof -
  obtain r txo db' where run: "Schema_Migrate eng s db = (r, txo, db')"
    by (cases "Schema_Migrate eng s db") auto
  from run run assms show ?thesis
    by (cases rule: Schema_Migrate_cases)
      (auto simp: migrations_of_append migrations_of_applied_ok)
qed

theorem Migrate_applies_pending_witness:
  "counter (sim_engine []) (stored (sim_db 1)) = Inr 1 \<and>
   fst (Schema_Migrate (sim_engine []) example_schema (sim_db 1)) = Success \<and>
   migrations_of (trace (sim_db 1) (snd (snd (Schema_Migrate (sim_engine []) example_schema (sim_db 1)))))
     = [(1, ''ALTER TABLE t ADD COLUMN y INT;'', None)]"
proof -
  let ?E = "sim_engine []"
  let ?R = "Schema_Migrate ?E example_schema (sim_db 1)"
  have r: "fst ?R = Success" by (simp add: example_schema_def run_defs)
  have "(0::int) \<le> 1" "1 < int (length (Versions example_schema))"
    by (simp_all add: Versions_example)
  from Migrate_applies_pending [OF sim_db_ready [of "[]" 1] this] r
  have "migrations_of (trace (sim_db 1) (snd (snd ?R)))
       = map (\<lambda>j. (int j, Versions example_schema ! j, None)) [nat 1..<length (Versions example_schema)]"
    by auto
  then show ?thesis using sim_db_ready(2) [of "[]" 1] r by (simp add: Versions_example upt_conv_Cons)
qed

text \<open>
  As the claim states it, for every counter below the number of versions, the property
  fails on a negative counter: with the counter at \<open>-1\<close>, \<^verbatim>\<open>versions[i]\<close> panics and no
  version body is executed.
\<close>

theorem Migrate_applies_pending_counterexample:
  "counter (sim_engine []) (stored (sim_db (- 1))) = Inr (- 1) \<and>
   - 1 < int (length (Versions (NewSchema ''CREATE TABLE t(x INT);''))) \<and>
   Schema_Migrate (sim_engine []) (NewSchema ''CREATE TABLE t(x INT);'') (sim_db (- 1))
     = (PanicIndexOutOfRange (- 1),
        Some \<lparr>working = stored (sim_db (- 1)), active = True, finished = True\<rparr>,
        \<lparr>stored = stored (sim_db (- 1)),
         calls = [(Begin, None), (QueryRowContext ''PRAGMA user_version'', None), (Rollback, None)]\<rparr>)"
  by (simp add: run_defs)

text \<open>
  C7 (as amended): whatever \<open>Migrate\<close> returns, it has read the counter at most once
  and written it at most once. When it does not return an error, the counter after the
  call is at least the counter before it; when it returns an error, this holds for
  every schema source and database such that the texts to execute leave the
  transaction alone (no pending version body commits or rolls back by itself).
\<close>

theorem Migrate_counter_monotone:
  assumes "Schema_Migrate eng s db = (r, txo, db')" and "user_version_register eng"
  shows "((\<forall>err. r \<noteq> Error err) \<longrightarrow>
        (\<forall>v. counter eng (stored db) = Inr v \<longrightarrow>
            (\<exists>v'. counter eng (stored db') = Inr v' \<and> v \<le> v'))) \<and>
     ((\<forall>v. counter eng (stored db) = Inr v \<longrightarrow>
          (\<forall>q\<in>set (drop (nat v) (Versions s)). keeps_transaction eng q)) \<and>
      keeps_transaction eng (Sprintln_user_version (int (length (Versions s)))) \<longrightarrow>
        (\<forall>v. counter eng (stored db) = Inr v \<longrightarrow>
            (\<exists>v'. counter eng (stored db') = Inr v' \<and> v \<le> v'))) \<and>
     length (filter is_read (trace db db')) \<le> 1 \<and>
     length (filter is_write (trace db db')) \<le> 1"
proof -
  have counts: "length (filter is_read (trace db db')) \<le> 1 \<and>
      length (filter is_write (trace db db')) \<le> 1"
    using assms(1) by (cases rule: Schema_Migrate_cases) simp_all
  have no_error: "\<exists>v'. counter eng (stored db') = Inr v' \<and> v \<le> v'"
    if "\<forall>err. r \<noteq> Error err" and v: "counter eng (stored db) = Inr v" for v
    using assms(1) that
  proof (cases rule: Schema_Migrate_cases)
    case (migrated u tx c)
    with counter_after_write [OF assms(2) migrated(8)] v show ?thesis by simp
  qed simp_all
  have kept: "\<exists>v'. counter eng (stored db') = Inr v' \<and> v \<le> v'"
    if keeps: "\<forall>v. counter eng (stored db) = Inr v \<longrightarrow>
          (\<forall>q\<in>set (drop (nat v) (Versions s)). keeps_transaction eng q)"
      "keeps_transaction eng (Sprintln_user_version (int (length (Versions s))))"
      and v: "counter eng (stored db) = Inr v" for v
  proof (cases "r = Success")
    case False
    from error_keeps_stored [OF assms(1) False keeps] v show ?thesis by simp
  next
    case True
    with no_error [OF _ v] show ?thesis by simp
  qed
  show ?thesis
  proof (intro conjI impI allI)
    fix v
    assume "\<forall>err. r \<noteq> Error err" and "counter eng (stored db) = Inr v"
    then show "\<exists>v'. counter eng (stored db') = Inr v' \<and> v \<le> v'" by (rule no_error)
  next
    fix v
    assume "(\<forall>v. counter eng (stored db) = Inr v \<longrightarrow>
          (\<forall>q\<in>set (drop (nat v) (Versions s)). keeps_transaction eng q)) \<and>
      keeps_transaction eng (Sprintln_user_version (int (length (Versions s))))"
      and "counter eng (stored db) = Inr v"
    then show "\<exists>v'. counter eng (stored db') = Inr v' \<and> v \<le> v'" using kept by blast
  qed (use counts in simp_all)
qed

theorem Migrate_counter_monotone_witness:
  "counter (sim_engine [''INVALID'']) (stored (sim_db 0)) = Inr 0 \<and>
   (\<exists>v'. counter (sim_engine [''INVALID''])
            (stored (snd (snd (Schema_Migrate (sim_engine [''INVALID'']) broken_schema (sim_db 0)))))
            = Inr v' \<and> 0 \<le> v') \<and>
   length (filter is_read
     (trace (sim_db 0) (snd (snd (Schema_Migrate (sim_engine [''INVALID'']) broken_schema (sim_db 0))))))
     \<le> 1 \<and>
   length (filter is_write
     (trace (sim_db 0) (snd (snd (Schema_Migrate (sim_engine [''INVALID'']) broken_schema (sim_db 0))))))
     \<le> 1 \<and>
   fst (Schema_Migrate (sim_engine []) example_schema (sim_db 0)) = Success \<and>
   (\<exists>v'. counter (sim_engine [])
            (stored (snd (snd (Schema_Migrate (sim_engine []) example_schema (sim_db 0)))))
            = Inr v' \<and> 0 \<le> v')"
proof -
  let ?E = "sim_engine [''INVALID'']"
  let ?R = "Schema_Migrate ?E broken_schema (sim_db 0)"
  let ?S = "Schema_Migrate (sim_engine []) example_schema (sim_db 0)"
  have c: "counter ?E (stored (sim_db 0)) = Inr 0" by (rule sim_db_ready)
  have "?R = (fst ?R, fst (snd ?R), snd (snd ?R))" by simp
  from Migrate_counter_monotone [OF this sim_register] c broken_keeps [of "[''INVALID'']"]
    sim_keeps_write [of "[''INVALID'']" "length (Versions broken_schema)"]
  have failing: "(\<exists>v'. counter ?E (stored (snd (snd ?R))) = Inr v' \<and> 0 \<le> v') \<and>
      length (filter is_read (trace (sim_db 0) (snd (snd ?R)))) \<le> 1 \<and>
      length (filter is_write (trace (sim_db 0) (snd (snd ?R)))) \<le> 1"
    by blast
  have r: "fst ?S = Success" by (simp add: example_schema_def run_defs)
  have c': "counter (sim_engine []) (stored (sim_db 0)) = Inr 0" by (rule sim_db_ready)
  from Migrate_counter_monotone [OF triple_eq [OF r] sim_register] c'
  have "\<exists>v'. counter (sim_engine []) (stored (snd (snd ?S))) = Inr v' \<and> 0 \<le> v'"
    by blast
  with failing c r show ?thesis by blast
qed

text \<open>
  As the claim states it, for every schema source, the property fails: with the counter
  at 3 and a fourth version that sets \<open>user_version\<close> to 1, commits and opens a
  transaction again, the failure of the fifth version leaves the counter at 1.
\<close>

theorem Migrate_counter_monotone_counterexample:
  "fst (Schema_Migrate (sim_engine [''INVALID'']) lowering_schema (sim_db 3))
     = Error (CannotApplyMigration 4 (DriverError ''syntax error'')) \<and>
   counter (sim_engine [''INVALID'']) (stored (sim_db 3)) = Inr 3 \<and>
   counter (sim_engine [''INVALID''])
     (stored (snd (snd (Schema_Migrate (sim_engine [''INVALID'']) lowering_schema (sim_db 3)))))
     = Inr 1"
  by (simp add: lowering_schema_def run_defs)




end
